theory Spec2Isabelle
  imports Complex_Main "HOL-Library.Sublist"
begin

section \<open>Data model\<close>

subsection \<open>Events (\<^verbatim>\<open>Event\<close> of the types package, the fields the replay listener reads)\<close>

text \<open>
  A tag value is a JavaScript primitive. \<^verbatim>\<open>undefined\<close> is a value of its own: the
  listener writes \<^verbatim>\<open>replay.session?.id\<close> into the tags, which is \<^verbatim>\<open>undefined\<close> when the
  container has no session.
\<close>

datatype primitive = PString string | PNumber int | PBoolean bool | PNull | PUndefined

record exception_value =
  exc_type :: "string option"
  exc_value :: "string option"

record exception_data =
  exc_values :: "exception_value list option"

record trace_context =
  trace_id :: "string option"

record event_contexts =
  trace :: "trace_context option"

text \<open>
  Optional fields are options (\<open>None\<close> is \<^verbatim>\<open>undefined\<close>). The record is used through its
  scheme \<open>'a event_scheme\<close>: the extension \<open>'a\<close> stands for every field of an event
  that the listener never names.
\<close>

record event =
  event_id :: "string option"
  message :: "string option"
  event_type :: "string option"
  exception :: "exception_data option"
  contexts :: "event_contexts option"
  tags :: "(string \<rightharpoonup> primitive) option"

subsection \<open>The replay container\<close>

datatype recording_mode = SessionMode | ErrorMode

record session =
  sid :: string
  started :: int
  lastActivity :: int
  sampled :: bool

text \<open>
  \<^verbatim>\<open>errorIds.add(event.event_id as string)\<close> is a cast, not a check: an event without an
  id puts \<^verbatim>\<open>undefined\<close> into the set, so the set holds optional strings.
\<close>

record replay_context =
  traceIds :: "string set"
  errorIds :: "string option set"

record experiments =
  traceInternals :: "bool option"

text \<open>
  What \<^verbatim>\<open>replay.getOptions()\<close> returns. The listener reads
  \<^verbatim>\<open>_experiments?.traceInternals\<close>. The other two fields are parameters of the container,
  which is not among the sources. Modelled from the spec: \<open>maxFlushFailures\<close> is the
  configured number of consecutive failures after which the recording is stopped
  (section 4.3), and \<open>awaitRequestedFlush\<close> says which settlement fulfils the promise of
  \<^verbatim>\<open>flushImmediate()\<close> when the call finds a flush in progress: that of the flush
  triggered again for the request (\<open>True\<close>), or that of the flush in progress
  (\<open>False\<close>). Neither the sources nor the specification decide between the two, so
  both are kept and the properties of the callback are stated for either.
\<close>

record replay_options =
  experiments :: "experiments option"
  maxFlushFailures :: nat
  awaitRequestedFlush :: bool

type_synonym recording_event = nat

text \<open>
  The first four fields are what \<^verbatim>\<open>handleGlobalEvent.ts\<close> reads and writes
  (\<^verbatim>\<open>replay.recordingMode\<close>, \<^verbatim>\<open>replay.session\<close>, \<^verbatim>\<open>replay.getContext()\<close>,
  \<^verbatim>\<open>replay.getOptions()\<close>). The others are the state of the flush coordinator and of the
  recording engine; the class that owns them is not among the sources and they are
  modelled from the specification (sections 3, 4.3 and 4.4).
\<close>

record replay_container =
  recordingMode :: recording_mode
  session :: "session option"
  getContext :: replay_context
  getOptions :: replay_options
  eventBuffer :: "recording_event list"
  engineActive :: bool
  flushInProgress :: bool
  flushQueued :: bool
  debouncePending :: bool
  failures :: nat

record breadcrumb =
  category :: string
  level :: string
  crumb_message :: string

text \<open>
  What has happened so far, in order. Entries that belong to one run of the callback
  that the listener hands to \<^verbatim>\<open>setTimeout\<close> carry the number of that run; a segment
  carries the number of its flush.
\<close>

datatype trace_entry =
    Ingested recording_event
  | SegmentTaken nat "recording_event list"
  | SegmentSettled nat bool
  | Scheduled nat
  | FlushCalled nat
  | FlushCompleted nat
  | EngineStopped nat bool
  | ModeSwitched nat
  | EngineStarted nat

text \<open>
  The single-threaded event loop around the container: the build flag
  \<^verbatim>\<open>__DEBUG_BUILD__\<close>, the breadcrumbs of the hub, the callbacks waiting in the timer
  queue, the callbacks suspended at \<^verbatim>\<open>await replay.flushImmediate()\<close> (those resumed when the
  flush in progress settles, and those resumed when the flush after it settles), and the
  serializations handed to the transport that have not settled.
\<close>

record world =
  debugBuild :: bool
  replay :: replay_container
  hubBreadcrumbs :: "breadcrumb list"
  timers :: "nat list"
  awaitingFlush :: "nat list"
  awaitingQueued :: "nat list"
  serializing :: "(nat \<times> recording_event list) list"
  nextTask :: nat
  nextFlush :: nat
  history :: "trace_entry list"

section \<open>The global event listener (\<^verbatim>\<open>handleGlobalEvent.ts\<close>)\<close>

text \<open>JavaScript truthiness of an optional string: \<^verbatim>\<open>undefined\<close> and \<^verbatim>\<open>''\<close> are falsy.\<close>

definition truthy :: "string option \<Rightarrow> bool" where
  "truthy v = (case v of None \<Rightarrow> False | Some s \<Rightarrow> s \<noteq> [])"

text \<open>\<^verbatim>\<open>a || d\<close> on an optional string.\<close>

definition or_else :: "string option \<Rightarrow> string \<Rightarrow> string" where
  "or_else v d = (case v of None \<Rightarrow> d | Some s \<Rightarrow> if s = [] then d else s)"

text \<open>An optional string inside a template literal.\<close>

definition interpolate :: "string option \<Rightarrow> string" where
  "interpolate v = (case v of None \<Rightarrow> ''undefined'' | Some s \<Rightarrow> s)"

text \<open>\<^verbatim>\<open>{ ...event.tags }\<close>: spreading \<^verbatim>\<open>undefined\<close> gives the empty object.\<close>

definition spread_tags :: "(string \<rightharpoonup> primitive) option \<Rightarrow> (string \<rightharpoonup> primitive)" where
  "spread_tags t = (case t of None \<Rightarrow> Map.empty | Some m \<Rightarrow> m)"

text \<open>\<^verbatim>\<open>replay.session?.id\<close>\<close>

definition session_id_value :: "session option \<Rightarrow> primitive" where
  "session_id_value s = (case s of None \<Rightarrow> PUndefined | Some x \<Rightarrow> PString (sid x))"

text \<open>
  \<^verbatim>\<open>event.type === 'transaction' && event.contexts && event.contexts.trace &&
  event.contexts.trace.trace_id\<close>: the trace id when the whole chain is truthy.
\<close>

definition transaction_trace_id :: "'a event_scheme \<Rightarrow> string option" where
  "transaction_trace_id event =
     (if event_type event = Some ''transaction'' then
        (case contexts event of
           None \<Rightarrow> None
         | Some cs \<Rightarrow>
             (case trace cs of
                None \<Rightarrow> None
              | Some t \<Rightarrow> if truthy (trace_id t) then trace_id t else None))
      else None)"

text \<open>\<^verbatim>\<open>event.exception?.values?.[0]\<close>\<close>

definition first_exception :: "'a event_scheme \<Rightarrow> exception_value option" where
  "first_exception event =
     (case exception event of
        None \<Rightarrow> None
      | Some ex \<Rightarrow>
          (case exc_values ex of
             None \<Rightarrow> None
           | Some [] \<Rightarrow> None
           | Some (v # _) \<Rightarrow> Some v))"

definition tagging_message :: "'a event_scheme \<Rightarrow> string" where
  "tagging_message event =
     (let exc = first_exception event in
      ''Tagging event ('' @ interpolate (event_id event) @ '') - '' @
      interpolate (message event) @ '' - '' @
      or_else (case exc of None \<Rightarrow> None | Some x \<Rightarrow> exc_type x) ''Unknown'' @ '': '' @
      or_else (case exc of None \<Rightarrow> None | Some x \<Rightarrow> exc_value x) ''n/a'')"

text \<open>
  \<^verbatim>\<open>addInternalBreadcrumb\<close>, called with a message only: category and level take their
  defaults, and \<^verbatim>\<open>addBreadcrumb\<close> of the core appends to the breadcrumbs of the hub.
\<close>

definition addInternalBreadcrumb :: "string \<Rightarrow> world \<Rightarrow> world" where
  "addInternalBreadcrumb msg w =
     w\<lparr>hubBreadcrumbs := hubBreadcrumbs w @
         [\<lparr>category = ''console'', level = ''debug'', crumb_message = ''[debug]: '' @ msg\<rparr>]\<rparr>"

text \<open>\<^verbatim>\<open>replay.getOptions()._experiments?.traceInternals\<close>\<close>

definition trace_internals :: "replay_options \<Rightarrow> bool" where
  "trace_internals opts =
     (case experiments opts of None \<Rightarrow> False | Some e \<Rightarrow> traceInternals e = Some True)"

text \<open>
  \<^verbatim>\<open>setTimeout(async () => { ... })\<close>: the callback closes over the container only, so a
  pending callback is its number in the timer queue.
\<close>

definition setTimeout :: "world \<Rightarrow> world" where
  "setTimeout w =
     w\<lparr>timers := timers w @ [nextTask w],
       nextTask := Suc (nextTask w),
       history := history w @ [Scheduled (nextTask w)]\<rparr>"

definition add_trace_id :: "string \<Rightarrow> world \<Rightarrow> world" where
  "add_trace_id t w =
     w\<lparr>replay := (replay w)\<lparr>getContext :=
         (getContext (replay w))\<lparr>traceIds := insert t (traceIds (getContext (replay w)))\<rparr>\<rparr>\<rparr>"

definition add_error_id :: "string option \<Rightarrow> world \<Rightarrow> world" where
  "add_error_id e w =
     w\<lparr>replay := (replay w)\<lparr>getContext :=
         (getContext (replay w))\<lparr>errorIds := insert e (errorIds (getContext (replay w)))\<rparr>\<rparr>\<rparr>"

text \<open>
  Lines 11 to 15:
  \<^verbatim>\<open>if (event.type !== 'transaction' || replay.recordingMode === 'session')
    event.tags = { ...event.tags, replayId: replay.session?.id };\<close>
\<close>

definition tag_event :: "world \<Rightarrow> 'a event_scheme \<Rightarrow> 'a event_scheme" where
  "tag_event w event =
     (if event_type event \<noteq> Some ''transaction'' \<or> recordingMode (replay w) = SessionMode
      then event\<lparr>tags := Some ((spread_tags (tags event))
                               (''replayId'' \<mapsto> session_id_value (session (replay w))))\<rparr>
      else event)"

text \<open>
  The listener, statement by statement. It returns what an event processor returns
  (\<open>None\<close> would be \<^verbatim>\<open>null\<close>, a suppressed event) together with the world after its
  effects.
\<close>

definition handleGlobalEventListener ::
  "world \<Rightarrow> 'a event_scheme \<Rightarrow> 'a event_scheme option \<times> world" where
  "handleGlobalEventListener w event0 =
     (let event = tag_event w event0
      in case transaction_trace_id event of
           Some t \<Rightarrow> (Some event, add_trace_id t w)
         | None \<Rightarrow>
             (let w1 = (if \<not> truthy (event_type event) then add_error_id (event_id event) w else w);
                  w2 = (if debugBuild w1 \<and> trace_internals (getOptions (replay w1))
                        then addInternalBreadcrumb (tagging_message event) w1 else w1);
                  w3 = (if recordingMode (replay w2) = ErrorMode \<and> exception event \<noteq> None
                        then setTimeout w2 else w2)
              in (Some event, w3)))"

section \<open>The callback handed to \<^verbatim>\<open>setTimeout\<close> and the container operations it calls\<close>

subsection \<open>Flush coordinator\<close>

text \<open>
  Modelled from the spec: the flush coordinator of the replay container (section 4.3),
  which is not among the sources. On firing it swaps the recording buffer for an empty
  one (section 3: the flush takes exclusive ownership of the current contents) and hands
  the contents to serialization and transport, an asynchronous operation that settles
  later.
\<close>

definition runFlush :: "world \<Rightarrow> world" where
  "runFlush w =
     w\<lparr>replay := (replay w)\<lparr>eventBuffer := [], flushInProgress := True\<rparr>,
       serializing := serializing w @ [(nextFlush w, eventBuffer (replay w))],
       nextFlush := Suc (nextFlush w),
       history := history w @ [SegmentTaken (nextFlush w) (eventBuffer (replay w))]\<rparr>"

text \<open>
  Modelled from the spec: \<^verbatim>\<open>flush(forceImmediate)\<close> (section 4.3). A request that is
  not immediate arms the debounce timer. An immediate request fires at once, unless a
  flush is in progress: then it is recorded, to be triggered again when that flush has
  settled.
\<close>

definition flush :: "bool \<Rightarrow> world \<Rightarrow> world" where
  "flush forceImmediate w =
     (if \<not> forceImmediate then w\<lparr>replay := (replay w)\<lparr>debouncePending := True\<rparr>\<rparr>
      else if flushInProgress (replay w) then w\<lparr>replay := (replay w)\<lparr>flushQueued := True\<rparr>\<rparr>
      else runFlush w)"

text \<open>Modelled from the spec: \<^verbatim>\<open>flushImmediate()\<close> (section 4.4) bypasses the debounce.\<close>

definition flushImmediate :: "world \<Rightarrow> world" where
  "flushImmediate w = flush True w"

text \<open>Modelled from the spec: the debounce timer elapses (section 4.3).\<close>

definition debounceElapsed :: "world \<Rightarrow> world" where
  "debounceElapsed w =
     (if debouncePending (replay w)
      then flush True (w\<lparr>replay := (replay w)\<lparr>debouncePending := False\<rparr>\<rparr>)
      else w)"

subsection \<open>Recording engine\<close>

text \<open>
  Modelled from the spec: stopping the recording engine (step (b) of section 4.2; the
  stop function of section 6 halts capture), with the result of section 4.4: whether a
  recording was actually active.
\<close>

definition stopRecording :: "world \<Rightarrow> bool \<times> world" where
  "stopRecording w =
     (engineActive (replay w), w\<lparr>replay := (replay w)\<lparr>engineActive := False\<rparr>\<rparr>)"

text \<open>Modelled from the spec: starting the recording engine (step (d) of section 4.2).\<close>

definition startRecording :: "world \<Rightarrow> world" where
  "startRecording w = w\<lparr>replay := (replay w)\<lparr>engineActive := True\<rparr>\<rparr>"

text \<open>
  Modelled from the spec: the ingestion callback (section 4.4). The engine calls it for
  every record it captures while it runs; the record is appended to the buffer, and in
  session mode a debounced flush is requested.
\<close>

definition ingest :: "recording_event \<Rightarrow> world \<Rightarrow> world" where
  "ingest r w =
     (if \<not> engineActive (replay w) then w
      else
        (let w1 = w\<lparr>replay := (replay w)\<lparr>eventBuffer := eventBuffer (replay w) @ [r]\<rparr>,
                    history := history w @ [Ingested r]\<rparr>
         in if recordingMode (replay w1) = SessionMode then flush False w1 else w1))"

subsection \<open>The callback (\<^verbatim>\<open>handleGlobalEvent.ts\<close>, lines 40 to 53)\<close>

text \<open>
  Modelled from the spec: the promise that \<^verbatim>\<open>flushImmediate()\<close> returns (section 4.4: the
  flush is awaited). When no flush is in progress, the promise is fulfilled when the flush
  started by the call settles. When a flush is in progress, the request is recorded
  (section 4.3), and the promise is fulfilled either when the flush triggered again for
  the request settles, or already when the flush in progress settles. The container is
  not among the sources and the specification does not say which, so the choice is the
  option \<open>awaitRequestedFlush\<close>. The result says whether a caller at \<open>w\<close> waits for
  the next flush rather than for the flush in progress.
\<close>

definition awaitsNextFlush :: "world \<Rightarrow> bool" where
  "awaitsNextFlush w =
     (flushInProgress (replay w) \<and> awaitRequestedFlush (getOptions (replay w)))"

text \<open>
  Run \<open>k\<close> of the callback up to its suspension: \<^verbatim>\<open>await replay.flushImmediate()\<close>
  (line 45). The callback calls \<^verbatim>\<open>flushImmediate\<close> and is parked on the flush whose
  settlement fulfils the promise.
\<close>

definition transition_begin :: "nat \<Rightarrow> world \<Rightarrow> world" where
  "transition_begin k w0 =
     (let w = w0\<lparr>history := history w0 @ [FlushCalled k]\<rparr>;
          w' = flushImmediate w
      in if awaitsNextFlush w
         then w'\<lparr>awaitingQueued := awaitingQueued w' @ [k]\<rparr>
         else w'\<lparr>awaitingFlush := awaitingFlush w' @ [k]\<rparr>)"

text \<open>
  Run \<open>k\<close> of the callback after the await:
  \<^verbatim>\<open>if (replay.stopRecording()) { replay.recordingMode = 'session'; replay.startRecording(); }\<close>
\<close>

definition transition_resume :: "nat \<Rightarrow> world \<Rightarrow> world" where
  "transition_resume k w0 =
     (let w = w0\<lparr>history := history w0 @ [FlushCompleted k]\<rparr>;
          (stopped, w1) = stopRecording w;
          w2 = w1\<lparr>history := history w1 @ [EngineStopped k stopped]\<rparr>
      in if stopped then
           (let w3 = w2\<lparr>replay := (replay w2)\<lparr>recordingMode := SessionMode\<rparr>,
                       history := history w2 @ [ModeSwitched k]\<rparr>;
                w4 = startRecording w3
            in w4\<lparr>history := history w4 @ [EngineStarted k]\<rparr>)
         else w2)"

text \<open>
  Modelled from the spec: the flush in progress settles (section 4.3), with the
  outcome of the transport. The failure counter is reset on success; on a failure it is
  incremented and the data of the attempt is gone, and when the counter reaches the
  configured number the recording is stopped. The callbacks whose promise this
  settlement fulfils resume. A request that was recorded meanwhile is triggered again, and
  the callbacks that wait for the next flush now wait for the new one.
\<close>

definition settleFlush :: "bool \<Rightarrow> world \<Rightarrow> world" where
  "settleFlush ok w =
     (case serializing w of
        [] \<Rightarrow> w
      | (n, seg) # rest \<Rightarrow>
          (let f = (if ok then 0 else Suc (failures (replay w)));
               w1 = w\<lparr>serializing := rest,
                      replay := (replay w)\<lparr>flushInProgress := False, failures := f,
                          engineActive := (engineActive (replay w) \<and>
                                           (ok \<or> f < maxFlushFailures (getOptions (replay w))))\<rparr>,
                      history := history w @ [SegmentSettled n ok]\<rparr>;
               w2 = fold transition_resume (awaitingFlush w1) (w1\<lparr>awaitingFlush := []\<rparr>)
           in if flushQueued (replay w2)
              then (runFlush (w2\<lparr>replay := (replay w2)\<lparr>flushQueued := False\<rparr>\<rparr>))
                     \<lparr>awaitingFlush := awaitingQueued w2, awaitingQueued := []\<rparr>
              else w2))"

section \<open>The event loop\<close>

text \<open>
  Everything runs on one event loop (section 5), one step at a time: an outbound event
  reaches the listener, the oldest pending timer callback runs up to its await, the
  flush in progress settles, the recording engine emits a record, the debounce timer
  elapses, or some caller requests a flush.
\<close>

datatype action =
    GlobalEvent event
  | TimerFires
  | FlushSettles bool
  | EngineEmits recording_event
  | DebounceElapses
  | FlushRequested bool

fun step :: "world \<Rightarrow> action \<Rightarrow> world" where
  "step w (GlobalEvent ev) = snd (handleGlobalEventListener w ev)"
| "step w TimerFires =
     (case timers w of [] \<Rightarrow> w | k # ks \<Rightarrow> transition_begin k (w\<lparr>timers := ks\<rparr>))"
| "step w (FlushSettles ok) = settleFlush ok w"
| "step w (EngineEmits r) = ingest r w"
| "step w DebounceElapses = debounceElapsed w"
| "step w (FlushRequested forceImmediate) = flush forceImmediate w"

definition run :: "world \<Rightarrow> action list \<Rightarrow> world" where
  "run w as = foldl step w as"

subsection \<open>Reading the history\<close>

text \<open>The records ingested so far, and the records taken by flushes so far, in order.\<close>

fun ingested_by :: "trace_entry \<Rightarrow> recording_event list" where
  "ingested_by (Ingested r) = [r]"
| "ingested_by _ = []"

fun taken_by :: "trace_entry \<Rightarrow> recording_event list" where
  "taken_by (SegmentTaken n seg) = seg"
| "taken_by _ = []"

definition ingested :: "trace_entry list \<Rightarrow> recording_event list" where
  "ingested h = concat (map ingested_by h)"

definition flushed :: "trace_entry list \<Rightarrow> recording_event list" where
  "flushed h = concat (map taken_by h)"

text \<open>The run of the callback an entry belongs to.\<close>

fun entry_task :: "trace_entry \<Rightarrow> nat option" where
  "entry_task (Scheduled k) = Some k"
| "entry_task (FlushCalled k) = Some k"
| "entry_task (FlushCompleted k) = Some k"
| "entry_task (EngineStopped k b) = Some k"
| "entry_task (ModeSwitched k) = Some k"
| "entry_task (EngineStarted k) = Some k"
| "entry_task _ = None"

definition task_entries :: "nat \<Rightarrow> trace_entry list \<Rightarrow> trace_entry list" where
  "task_entries k h = filter (\<lambda>e. entry_task e = Some k) h"

text \<open>What one run of the callback does, from its scheduling on, in order.\<close>

definition transition_sequence :: "nat \<Rightarrow> bool \<Rightarrow> trace_entry list" where
  "transition_sequence k stopped =
     [Scheduled k, FlushCalled k, FlushCompleted k, EngineStopped k stopped] @
     (if stopped then [ModeSwitched k, EngineStarted k] else [])"

text \<open>The condition under which the listener hands the callback to \<^verbatim>\<open>setTimeout\<close>.\<close>

definition triggers_transition :: "world \<Rightarrow> 'a event_scheme \<Rightarrow> bool" where
  "triggers_transition w ev =
     (transaction_trace_id ev = None \<and> recordingMode (replay w) = ErrorMode \<and>
      exception ev \<noteq> None)"

text \<open>What the listener leaves in the replay context and in the breadcrumbs of the hub.\<close>

definition listener_ctx :: "world \<Rightarrow> 'a event_scheme \<Rightarrow> replay_context" where
  "listener_ctx w ev =
     (case transaction_trace_id ev of
        Some t \<Rightarrow> (getContext (replay w))\<lparr>traceIds := insert t (traceIds (getContext (replay w)))\<rparr>
      | None \<Rightarrow>
          if truthy (event_type ev) then getContext (replay w)
          else (getContext (replay w))\<lparr>errorIds := insert (event_id ev) (errorIds (getContext (replay w)))\<rparr>)"

definition listener_crumbs :: "world \<Rightarrow> 'a event_scheme \<Rightarrow> breadcrumb list" where
  "listener_crumbs w ev =
     (if transaction_trace_id ev = None \<and> debugBuild w \<and> trace_internals (getOptions (replay w))
      then [\<lparr>category = ''console'', level = ''debug'',
             crumb_message = ''[debug]: '' @ tagging_message ev\<rparr>]
      else [])"

text \<open>What the callbacks resumed by one settled flush append to the history.\<close>

fun resume_entries :: "bool \<Rightarrow> nat list \<Rightarrow> trace_entry list" where
  "resume_entries a [] = []"
| "resume_entries a (k # ks) =
     (if a then [FlushCompleted k, EngineStopped k True, ModeSwitched k, EngineStarted k]
      else [FlushCompleted k, EngineStopped k False]) @ resume_entries a ks"

subsection \<open>What the coordinator maintains\<close>

definition coordinated :: "world \<Rightarrow> bool" where
  "coordinated w =
     (length (serializing w) \<le> 1 \<and>
      (flushInProgress (replay w) = (serializing w \<noteq> [])) \<and>
      (flushQueued (replay w) \<longrightarrow> flushInProgress (replay w)) \<and>
      (awaitingQueued w \<noteq> [] \<longrightarrow> flushQueued (replay w)) \<and>
      (awaitingFlush w \<noteq> [] \<longrightarrow> flushInProgress (replay w)))"

text \<open>Whether the engine still runs once a flush has settled with outcome \<open>ok\<close>.\<close>

definition settled_engine :: "bool \<Rightarrow> world \<Rightarrow> bool" where
  "settled_engine ok w =
     (engineActive (replay w) \<and>
      (ok \<or> Suc (failures (replay w)) < maxFlushFailures (getOptions (replay w))))"

text \<open>
  The callbacks in flight, each in one queue only, and what each run of the callback has
  left in the history, by the queue it is in.
\<close>

definition queues :: "world \<Rightarrow> nat list" where
  "queues w = timers w @ awaitingFlush w @ awaitingQueued w"

definition queues_ok :: "world \<Rightarrow> bool" where
  "queues_ok w = (distinct (queues w) \<and> (\<forall>k \<in> set (queues w). k < nextTask w))"

definition task_ok :: "nat \<Rightarrow> world \<Rightarrow> bool" where
  "task_ok k w =
     (if k \<in> set (timers w) then task_entries k (history w) = [Scheduled k]
      else if k \<in> set (awaitingFlush w) \<or> k \<in> set (awaitingQueued w)
        then task_entries k (history w) = [Scheduled k, FlushCalled k]
      else if k < nextTask w
        then task_entries k (history w) = transition_sequence k True \<or>
             task_entries k (history w) = transition_sequence k False
      else task_entries k (history w) = [])"

definition tasks_ok :: "world \<Rightarrow> bool" where
  "tasks_ok w = (queues_ok w \<and> (\<forall>k. task_ok k w))"

text \<open>Every record ingested so far was taken by a flush or is in the buffer, in order.\<close>

definition buffer_accounted :: "world \<Rightarrow> bool" where
  "buffer_accounted w =
     (flushed (history w) @ eventBuffer (replay w) = ingested (history w))"

text \<open>Run \<open>k\<close> of the callback was scheduled and its timer has fired.\<close>

definition fired :: "nat \<Rightarrow> world \<Rightarrow> bool" where
  "fired k w = (k < nextTask w \<and> k \<notin> set (timers w))"

text \<open>
  Where run \<open>k\<close> of the callback stands with respect to the settlement that resumes it,
  whichever flush fulfils the promise: an engine restarted by run \<open>k\<close> was restarted
  after a flush settled, and that flush settled after the call of \<^verbatim>\<open>flushImmediate\<close>.
\<close>

definition promise_order_ok :: "nat \<Rightarrow> world \<Rightarrow> bool" where
  "promise_order_ok k w =
     ((k \<in> set (timers w) \<longrightarrow> subseq [Scheduled k] (history w)) \<and>
      (k \<in> set (awaitingQueued w) \<longrightarrow> subseq [Scheduled k, FlushCalled k] (history w)) \<and>
      (k \<in> set (awaitingFlush w) \<longrightarrow> subseq [Scheduled k, FlushCalled k] (history w)) \<and>
      (EngineStarted k \<in> set (history w) \<longrightarrow>
         (\<exists>n ok.
            subseq [Scheduled k, FlushCalled k, SegmentSettled n ok,
                    FlushCompleted k, EngineStopped k True, ModeSwitched k, EngineStarted k]
              (history w))))"

definition settled_before_restart :: "world \<Rightarrow> bool" where
  "settled_before_restart w = (\<forall>k. promise_order_ok k w)"



text \<open>
  The records \<open>I\<close> ingested before run \<open>k\<close> of the callback was scheduled, with respect
  to that run, when the promise is that of the requested flush: they stay an initial part
  of what was ingested, they have all been taken by flushes when the run is resumed by the
  flush in progress, and they had all been taken before the run restarted the engine.
\<close>

definition segregated :: "recording_event list \<Rightarrow> nat \<Rightarrow> world \<Rightarrow> bool" where
  "segregated I k w =
     (prefix I (ingested (history w)) \<and>
      (k \<in> set (awaitingFlush w) \<longrightarrow> prefix I (flushed (history w))) \<and>
      (EngineStarted k \<in> set (history w) \<longrightarrow>
         (\<exists>pre post. history w = pre @ EngineStarted k # post \<and> prefix I (flushed pre))))"

definition records_kept_apart :: "recording_event list \<Rightarrow> nat \<Rightarrow> world \<Rightarrow> bool" where
  "records_kept_apart I k w =
     (coordinated w \<and> buffer_accounted w \<and> fired k w \<and> segregated I k w)"

text \<open>
  The recording mode is \<open>session\<close> exactly when the recording started in it (\<open>b\<close>) or a
  run of the callback has switched it.
\<close>

definition mode_explained :: "bool \<Rightarrow> world \<Rightarrow> bool" where
  "mode_explained b w =
     ((recordingMode (replay w) = SessionMode) =
      (b \<or> (\<exists>k. ModeSwitched k \<in> set (history w))))"

section \<open>Start of a recording\<close>

text \<open>
  Modelled from the spec: \<^verbatim>\<open>start()\<close> of the replay container (section 4.4), which is
  not among the sources. The initial recording mode is chosen from the sampling decision
  of the session (section 4.2), the recording engine is running, nothing is buffered and
  no flush is in progress.
\<close>

definition initial_container :: "replay_options \<Rightarrow> session \<Rightarrow> replay_container" where
  "initial_container opts s =
     \<lparr>recordingMode = (if sampled s then SessionMode else ErrorMode),
      session = Some s,
      getContext = \<lparr>traceIds = {}, errorIds = {}\<rparr>,
      getOptions = opts,
      eventBuffer = [],
      engineActive = True,
      flushInProgress = False,
      flushQueued = False,
      debouncePending = False,
      failures = 0\<rparr>"

definition initial_world :: "bool \<Rightarrow> replay_options \<Rightarrow> session \<Rightarrow> world" where
  "initial_world dbg opts s =
     \<lparr>debugBuild = dbg,
      replay = initial_container opts s,
      hubBreadcrumbs = [],
      timers = [],
      awaitingFlush = [],
      awaitingQueued = [],
      serializing = [],
      nextTask = 0,
      nextFlush = 0,
      history = []\<rparr>"

section \<open>Session store and session lifecycle\<close>

text \<open>
  Modelled from the spec: the Session Store (sections 2 and 6), which is not among the
  sources: a per-origin key-value surface with \<^verbatim>\<open>get\<close>, \<^verbatim>\<open>set\<close> and \<^verbatim>\<open>remove\<close>, each of
  which may fail (section 4.1: quota, disabled storage). A disabled store fails every
  access; a full store fails every write. The stored value stands for the serialized
  session.
\<close>

datatype store_error = SecurityError | QuotaExceededError

record session_store =
  items :: "string \<rightharpoonup> session"
  disabled :: bool
  full :: bool

definition store_get :: "session_store \<Rightarrow> string \<Rightarrow> store_error + session option" where
  "store_get st k = (if disabled st then Inl SecurityError else Inr (items st k))"

definition store_set :: "session_store \<Rightarrow> string \<Rightarrow> session \<Rightarrow> store_error + session_store" where
  "store_set st k v =
     (if disabled st then Inl SecurityError
      else if full st then Inl QuotaExceededError
      else Inr (st\<lparr>items := (items st)(k \<mapsto> v)\<rparr>))"

definition store_remove :: "session_store \<Rightarrow> string \<Rightarrow> store_error + session_store" where
  "store_remove st k =
     (if disabled st then Inl SecurityError else Inr (st\<lparr>items := (items st)(k := None)\<rparr>))"

text \<open>
  Modelled from the spec: the key under which the session is kept. The test of
  \<^verbatim>\<open>deleteSession\<close> imports it from the constants of the package, which are not among the
  sources; its value plays no role.
\<close>

definition REPLAY_SESSION_KEY :: string where
  "REPLAY_SESSION_KEY = ''sentryReplaySession''"

record session_config =
  inactivityTimeoutMs :: int
  maxSessionAgeMs :: int
  sessionSampleRate :: rat

text \<open>What a call reads from its environment: the clock, the identifier and the number drawn.\<close>

record environment =
  now :: int
  uuid4 :: string
  randomDraw :: rat

text \<open>
  Modelled from the spec: section 4.1. A session is expired when
  \<^verbatim>\<open>now - lastActivity > inactivityTimeoutMs\<close> or \<^verbatim>\<open>now - started > maxSessionAgeMs\<close>.
\<close>

definition isSessionExpired :: "session_config \<Rightarrow> int \<Rightarrow> session \<Rightarrow> bool" where
  "isSessionExpired cfg t s =
     (t - lastActivity s > inactivityTimeoutMs cfg \<or> t - started s > maxSessionAgeMs cfg)"

text \<open>
  Modelled from the spec: a new session has a fresh identifier, new timestamps and a
  sampling decision recomputed from the configured rate and a pseudo-random draw.
\<close>

definition createSession :: "session_config \<Rightarrow> environment \<Rightarrow> session" where
  "createSession cfg env =
     \<lparr>sid = uuid4 env, started = now env, lastActivity = now env,
      sampled = (randomDraw env < sessionSampleRate cfg)\<rparr>"

text \<open>
  Modelled from the spec: persisting a session. A failure of the store is not fatal: the
  session stays in memory only and a diagnostic is logged.
\<close>

definition saveSession :: "session_store \<Rightarrow> session \<Rightarrow> session_store \<times> string list" where
  "saveSession st s =
     (case store_set st REPLAY_SESSION_KEY s of
        Inl e \<Rightarrow> (st, [''failed to persist the replay session''])
      | Inr st' \<Rightarrow> (st', []))"

text \<open>A failed read is treated as no persisted session, with a diagnostic.\<close>

definition fetchSession :: "session_store \<Rightarrow> session option \<times> string list" where
  "fetchSession st =
     (case store_get st REPLAY_SESSION_KEY of
        Inl e \<Rightarrow> (None, [''failed to read the replay session''])
      | Inr v \<Rightarrow> (v, []))"

text \<open>
  Modelled from the spec: \<^verbatim>\<open>getOrCreateSession\<close> (section 4.1). The result is the session,
  the store after the call and the diagnostics logged; \<open>Inl\<close> would be an error raised
  to the caller.
\<close>

definition getOrCreateSession ::
  "session_config \<Rightarrow> environment \<Rightarrow> session_store \<Rightarrow>
   store_error + (session \<times> session_store \<times> string list)" where
  "getOrCreateSession cfg env st =
     (let (existing, d1) = fetchSession st;
          fresh = (let s' = createSession cfg env; (st', d2) = saveSession st s'
                   in Inr (s', st', d1 @ d2))
      in case existing of
           None \<Rightarrow> fresh
         | Some s \<Rightarrow> if isSessionExpired cfg (now env) s then fresh else Inr (s, st, d1))"

text \<open>
  Modelled from the spec: \<^verbatim>\<open>deleteSession\<close>, from its test (\<^verbatim>\<open>deleteSession.test.ts\<close>: the
  key is gone afterwards, and deleting when nothing is persisted does not throw) and from
  section 4.1 (a failure of the store is never raised).
\<close>

definition deleteSession :: "session_store \<Rightarrow> store_error + session_store" where
  "deleteSession st =
     (case store_remove st REPLAY_SESSION_KEY of Inl e \<Rightarrow> Inr st | Inr st' \<Rightarrow> Inr st')"

section \<open>Debounce\<close>

text \<open>
  Modelled from the spec: the debounce-with-max-wait policy of section 4.3, which is not
  among the sources. While a flush is pending, the state is the time of the first
  request of the cycle and the time of the latest one; the flush is due after the
  debounce interval since the latest request or at the ceiling since the first,
  whichever comes first.
\<close>

record debounce_config =
  debounceMs :: int
  maxWaitMs :: int

definition due :: "debounce_config \<Rightarrow> int \<times> int \<Rightarrow> int" where
  "due cfg p = min (snd p + debounceMs cfg) (fst p + maxWaitMs cfg)"

text \<open>
  The times at which the flush fires, for requests at the given times (in order). A
  request that arrives when the pending flush is due finds it fired and starts a new
  cycle.
\<close>

fun debounced_flushes :: "debounce_config \<Rightarrow> (int \<times> int) option \<Rightarrow> int list \<Rightarrow> int list" where
  "debounced_flushes cfg None [] = []"
| "debounced_flushes cfg (Some p) [] = [due cfg p]"
| "debounced_flushes cfg None (t # ts) = debounced_flushes cfg (Some (t, t)) ts"
| "debounced_flushes cfg (Some p) (t # ts) =
     (if due cfg p \<le> t then due cfg p # debounced_flushes cfg (Some (t, t)) ts
      else debounced_flushes cfg (Some (fst p, t)) ts)"

text \<open>Each request arrives after the previous one, less than the debounce interval later.\<close>

fun within_debounce :: "debounce_config \<Rightarrow> int list \<Rightarrow> bool" where
  "within_debounce cfg (t # u # ts) =
     (t \<le> u \<and> u - t < debounceMs cfg \<and> within_debounce cfg (u # ts))"
| "within_debounce cfg _ = True"

section \<open>Concrete inputs\<close>

definition plain_options :: replay_options where
  "plain_options = \<lparr>experiments = None, maxFlushFailures = 3, awaitRequestedFlush = True\<rparr>"

text \<open>
  A container whose promise of \<^verbatim>\<open>flushImmediate()\<close> is fulfilled by the settlement of the
  flush in progress, and one that stops recording at the first failed flush.
\<close>

definition early_promise_options :: replay_options where
  "early_promise_options =
     \<lparr>experiments = None, maxFlushFailures = 3, awaitRequestedFlush = False\<rparr>"

definition fragile_options :: replay_options where
  "fragile_options = \<lparr>experiments = None, maxFlushFailures = 1, awaitRequestedFlush = True\<rparr>"

definition buffering_session :: session where
  "buffering_session = \<lparr>sid = ''fd09adfc'', started = 1000, lastActivity = 1000, sampled = False\<rparr>"

definition sampled_session :: session where
  "sampled_session = \<lparr>sid = ''0a1b2c3d'', started = 1000, lastActivity = 1000, sampled = True\<rparr>"

text \<open>An error event with an exception, as \<^verbatim>\<open>captureException\<close> produces it.\<close>

definition exception_event :: event where
  "exception_event =
     \<lparr>event_id = Some ''e1'', message = None, event_type = None,
      exception = Some \<lparr>exc_values = Some [\<lparr>exc_type = Some ''TypeError'', exc_value = Some ''x is undefined''\<rparr>]\<rparr>,
      contexts = None, tags = None\<rparr>"

text \<open>An error event without an exception, as \<^verbatim>\<open>captureMessage\<close> produces it.\<close>

definition message_event :: event where
  "message_event =
     \<lparr>event_id = Some ''m1'', message = Some ''disk almost full'', event_type = None,
      exception = None, contexts = None, tags = None\<rparr>"

definition transaction_event :: event where
  "transaction_event =
     \<lparr>event_id = Some ''t1'', message = None, event_type = Some ''transaction'',
      exception = None,
      contexts = Some \<lparr>trace = Some \<lparr>trace_id = Some ''abc123''\<rparr>\<rparr>,
      tags = Some [''route'' \<mapsto> PString ''/home'']\<rparr>"

text \<open>Stores that fail.\<close>

definition full_store :: session_store where
  "full_store = \<lparr>items = Map.empty, disabled = False, full = True\<rparr>"

definition disabled_store :: session_store where
  "disabled_store = \<lparr>items = Map.empty, disabled = True, full = False\<rparr>"

section \<open>Properties of the listener\<close>

lemma tag_event_fields [simp]:
  "event_id (tag_event w ev) = event_id ev"
  "message (tag_event w ev) = message ev"
  "event_type (tag_event w ev) = event_type ev"
  "exception (tag_event w ev) = exception ev"
  "contexts (tag_event w ev) = contexts ev"
  by (simp_all add: tag_event_def)

lemma transaction_trace_id_tag_event [simp]:
  "transaction_trace_id (tag_event w ev) = transaction_trace_id ev"
  by (simp add: transaction_trace_id_def)

lemma tagging_message_tag_event [simp]:
  "tagging_message (tag_event w ev) = tagging_message ev"
  by (simp add: tagging_message_def first_exception_def)

lemma listener_returned: "fst (handleGlobalEventListener w ev) = Some (tag_event w ev)"
  by (simp add: handleGlobalEventListener_def Let_def split: option.splits)

text \<open>The effects of the listener in one equation.\<close>

lemma listener_world:
  "snd (handleGlobalEventListener w ev) =
     (let w' = w\<lparr>replay := (replay w)\<lparr>getContext := listener_ctx w ev\<rparr>,
                 hubBreadcrumbs := hubBreadcrumbs w @ listener_crumbs w ev\<rparr>
      in if triggers_transition w ev then setTimeout w' else w')"
proof (cases "transaction_trace_id ev")
  case None
  then show ?thesis
    by (cases "exception ev")
       (simp_all add: handleGlobalEventListener_def Let_def add_error_id_def
          addInternalBreadcrumb_def listener_crumbs_def listener_ctx_def triggers_transition_def)
next
  case (Some t)
  then show ?thesis
    by (simp add: handleGlobalEventListener_def Let_def add_trace_id_def
        listener_crumbs_def listener_ctx_def triggers_transition_def)
qed

lemma listener_fields [simp]:
  "replay (snd (handleGlobalEventListener w ev)) = (replay w)\<lparr>getContext := listener_ctx w ev\<rparr>"
  "debugBuild (snd (handleGlobalEventListener w ev)) = debugBuild w"
  "hubBreadcrumbs (snd (handleGlobalEventListener w ev)) = hubBreadcrumbs w @ listener_crumbs w ev"
  "timers (snd (handleGlobalEventListener w ev)) =
     timers w @ (if triggers_transition w ev then [nextTask w] else [])"
  "awaitingFlush (snd (handleGlobalEventListener w ev)) = awaitingFlush w"
  "awaitingQueued (snd (handleGlobalEventListener w ev)) = awaitingQueued w"
  "serializing (snd (handleGlobalEventListener w ev)) = serializing w"
  "nextTask (snd (handleGlobalEventListener w ev)) =
     (if triggers_transition w ev then Suc (nextTask w) else nextTask w)"
  "nextFlush (snd (handleGlobalEventListener w ev)) = nextFlush w"
  "history (snd (handleGlobalEventListener w ev)) =
     history w @ (if triggers_transition w ev then [Scheduled (nextTask w)] else [])"
  by (simp_all add: listener_world Let_def setTimeout_def)

lemma listener_context:
  "getContext (replay (snd (handleGlobalEventListener w ev))) = listener_ctx w ev"
  by simp

text \<open>
  C10: the listener sets the tag \<open>replayId\<close> to the id of the current session
  (\<^verbatim>\<open>replay.session?.id\<close>: the string \<open>sid s\<close> when the container has the session
  \<open>s\<close>, and \<^verbatim>\<open>undefined\<close> when it has none) on every event, except on a transaction
  that arrives while the recording mode is \<open>error\<close>: that transaction is returned as it
  came, its tags untouched.
\<close>

theorem listener_tags_replayId:
  "(\<not> (event_type ev = Some ''transaction'' \<and> recordingMode (replay w) = ErrorMode) \<longrightarrow>
      (\<exists>ev' m. fst (handleGlobalEventListener w ev) = Some ev' \<and> tags ev' = Some m \<and>
         m ''replayId'' =
           Some (case session (replay w) of None \<Rightarrow> PUndefined | Some s \<Rightarrow> PString (sid s)))) \<and>
   (event_type tx = Some ''transaction'' \<and> recordingMode (replay w) = ErrorMode \<longrightarrow>
      fst (handleGlobalEventListener w tx) = Some tx)"
  by (cases "recordingMode (replay w)")
     (simp_all add: listener_returned tag_event_def session_id_value_def)

theorem listener_tags_replayId_witness:
  "\<not> (event_type exception_event = Some ''transaction'' \<and>
       recordingMode (replay (initial_world False plain_options buffering_session)) = ErrorMode) \<and>
   session (replay (initial_world False plain_options buffering_session)) = Some buffering_session \<and>
   sid buffering_session = ''fd09adfc'' \<and>
   (\<exists>ev' m. fst (handleGlobalEventListener (initial_world False plain_options buffering_session)
                   exception_event) = Some ev' \<and>
      tags ev' = Some m \<and> m ''replayId'' = Some (PString ''fd09adfc'')) \<and>
   (\<exists>ev' m. fst (handleGlobalEventListener
                   ((initial_world False plain_options buffering_session)
                      \<lparr>replay := (initial_container plain_options buffering_session)
                         \<lparr>session := None\<rparr>\<rparr>)
                   exception_event) = Some ev' \<and>
      tags ev' = Some m \<and> m ''replayId'' = Some PUndefined) \<and>
   event_type transaction_event = Some ''transaction'' \<and>
   recordingMode (replay (initial_world False plain_options buffering_session)) = ErrorMode \<and>
   fst (handleGlobalEventListener (initial_world False plain_options buffering_session)
          transaction_event) = Some transaction_event \<and>
   tags transaction_event = Some [''route'' \<mapsto> PString ''/home'']"
  using listener_tags_replayId [of exception_event
      "initial_world False plain_options buffering_session" transaction_event]
    listener_tags_replayId [of exception_event
      "(initial_world False plain_options buffering_session)
         \<lparr>replay := (initial_container plain_options buffering_session)\<lparr>session := None\<rparr>\<rparr>"
      transaction_event]
  by (simp add: exception_event_def transaction_event_def initial_world_def
      initial_container_def buffering_session_def)

text \<open>
  C9: the listener returns the event it was given, never \<^verbatim>\<open>null\<close>, and the returned event
  differs from the given one in the field \<open>tags\<close> at most: every other field, named by
  the listener or not, is as it was.
\<close>

theorem listener_returns_event_changing_tags_only:
  "\<exists>t. fst (handleGlobalEventListener w ev) = Some (ev\<lparr>tags := t\<rparr>)"
proof (cases "event_type ev \<noteq> Some ''transaction'' \<or> recordingMode (replay w) = SessionMode")
  case True
  then show ?thesis unfolding listener_returned tag_event_def by auto
next
  case False
  then have "fst (handleGlobalEventListener w ev) = Some (ev\<lparr>tags := tags ev\<rparr>)"
    unfolding listener_returned tag_event_def by simp
  then show ?thesis by blast
qed

theorem listener_returns_event_changing_tags_only_witness:
  "\<exists>t. fst (handleGlobalEventListener (initial_world False plain_options buffering_session)
          transaction_event) = Some (transaction_event\<lparr>tags := t\<rparr>) \<and>
       message (transaction_event\<lparr>tags := t\<rparr>) = message transaction_event \<and>
       contexts (transaction_event\<lparr>tags := t\<rparr>) = contexts transaction_event"
  using listener_returns_event_changing_tags_only [of
      "initial_world False plain_options buffering_session" transaction_event]
  by simp

text \<open>
  C8: the listener accumulates correlation identifiers in the replay context. A
  transaction that carries a (non-empty) \<^verbatim>\<open>contexts.trace.trace_id\<close> adds it to
  \<open>traceIds\<close>; an event without a type adds its \<open>event_id\<close> to \<open>errorIds\<close>; nothing is
  ever removed from either set; and the resulting context is the same whatever the
  recording mode is.
\<close>

theorem listener_accumulates_context:
  "(event_type tx = Some ''transaction'' \<and> contexts tx = Some cs \<and> trace cs = Some t \<and>
      trace_id t = Some i \<and> i \<noteq> [] \<longrightarrow>
      traceIds (getContext (replay (snd (handleGlobalEventListener w tx)))) =
        insert i (traceIds (getContext (replay w)))) \<and>
   (event_type er = None \<longrightarrow>
      errorIds (getContext (replay (snd (handleGlobalEventListener w er)))) =
        insert (event_id er) (errorIds (getContext (replay w)))) \<and>
   traceIds (getContext (replay w)) \<subseteq>
     traceIds (getContext (replay (snd (handleGlobalEventListener w ev)))) \<and>
   errorIds (getContext (replay w)) \<subseteq>
     errorIds (getContext (replay (snd (handleGlobalEventListener w ev)))) \<and>
   getContext (replay (snd (handleGlobalEventListener (w\<lparr>replay := (replay w)\<lparr>recordingMode := m\<rparr>\<rparr>) ev))) =
     getContext (replay (snd (handleGlobalEventListener w ev)))"
proof -
  have "transaction_trace_id tx = Some i"
    if "event_type tx = Some ''transaction''" "contexts tx = Some cs" "trace cs = Some t"
      "trace_id t = Some i" "i \<noteq> []"
    using that by (simp add: transaction_trace_id_def truthy_def)
  moreover have "transaction_trace_id er = None \<and> \<not> truthy (event_type er)"
    if "event_type er = None"
    using that by (simp add: transaction_trace_id_def truthy_def)
  moreover have "recordingMode (replay (w\<lparr>replay := (replay w)\<lparr>recordingMode := m\<rparr>\<rparr>)) = m"
    by simp
  ultimately show ?thesis
    by (auto simp add: listener_context listener_ctx_def split: option.splits)
qed

theorem listener_accumulates_context_witness:
  "event_type transaction_event = Some ''transaction'' \<and>
   contexts transaction_event = Some \<lparr>trace = Some \<lparr>trace_id = Some ''abc123''\<rparr>\<rparr> \<and>
   trace \<lparr>trace = Some \<lparr>trace_id = Some ''abc123''\<rparr>\<rparr> = Some \<lparr>trace_id = Some ''abc123''\<rparr> \<and>
   trace_id \<lparr>trace_id = Some ''abc123''\<rparr> = Some ''abc123'' \<and> ''abc123'' \<noteq> [] \<and>
   traceIds (getContext (replay (snd (handleGlobalEventListener
       (initial_world False plain_options buffering_session) transaction_event)))) = {''abc123''} \<and>
   event_type message_event = None \<and>
   errorIds (getContext (replay (snd (handleGlobalEventListener
       (initial_world False plain_options buffering_session) message_event)))) = {Some ''m1''}"
  using listener_accumulates_context [of transaction_event
      "\<lparr>trace = Some \<lparr>trace_id = Some ''abc123''\<rparr>\<rparr>" "\<lparr>trace_id = Some ''abc123''\<rparr>" "''abc123''"
      "initial_world False plain_options buffering_session" message_event message_event ErrorMode]
  by (simp add: transaction_event_def message_event_def initial_world_def initial_container_def
      listener_ctx_def transaction_trace_id_def truthy_def)

section \<open>The coordinator admits one flush at a time\<close>

lemma transition_resume_eq:
  "transition_resume k w =
     w\<lparr>replay := (replay w)\<lparr>recordingMode :=
          (if engineActive (replay w) then SessionMode else recordingMode (replay w))\<rparr>,
       history := history w @ resume_entries (engineActive (replay w)) [k]\<rparr>"
  by (simp add: transition_resume_def stopRecording_def startRecording_def Let_def)

lemma fold_transition_resume:
  "fold transition_resume ks w =
     w\<lparr>replay := (replay w)\<lparr>recordingMode :=
          (if engineActive (replay w) \<and> ks \<noteq> [] then SessionMode else recordingMode (replay w))\<rparr>,
       history := history w @ resume_entries (engineActive (replay w)) ks\<rparr>"
proof (induction ks arbitrary: w)
  case Nil
  show ?case by simp
next
  case (Cons k ks)
  have "fold transition_resume (k # ks) w = fold transition_resume ks (transition_resume k w)"
    by simp
  also have "\<dots> = (transition_resume k w)\<lparr>replay := (replay (transition_resume k w))\<lparr>recordingMode :=
          (if engineActive (replay (transition_resume k w)) \<and> ks \<noteq> [] then SessionMode
           else recordingMode (replay (transition_resume k w)))\<rparr>,
       history := history (transition_resume k w) @
          resume_entries (engineActive (replay (transition_resume k w))) ks\<rparr>"
    by (rule Cons.IH)
  also have "\<dots> = w\<lparr>replay := (replay w)\<lparr>recordingMode :=
          (if engineActive (replay w) \<and> k # ks \<noteq> [] then SessionMode else recordingMode (replay w))\<rparr>,
       history := history w @ resume_entries (engineActive (replay w)) (k # ks)\<rparr>"
    by (simp add: transition_resume_eq)
  finally show ?case .
qed

text \<open>The operations, field by field.\<close>

lemma settleFlush_fields:
  assumes "serializing w = (n, seg) # rest"
  shows
    "recordingMode (replay (settleFlush ok w)) =
       (if settled_engine ok w \<and> awaitingFlush w \<noteq> [] then SessionMode
        else recordingMode (replay w))"
    "engineActive (replay (settleFlush ok w)) = settled_engine ok w"
    "flushInProgress (replay (settleFlush ok w)) = flushQueued (replay w)"
    "flushQueued (replay (settleFlush ok w)) = False"
    "eventBuffer (replay (settleFlush ok w)) =
       (if flushQueued (replay w) then [] else eventBuffer (replay w))"
    "failures (replay (settleFlush ok w)) = (if ok then 0 else Suc (failures (replay w)))"
    "session (replay (settleFlush ok w)) = session (replay w)"
    "getContext (replay (settleFlush ok w)) = getContext (replay w)"
    "getOptions (replay (settleFlush ok w)) = getOptions (replay w)"
    "debouncePending (replay (settleFlush ok w)) = debouncePending (replay w)"
    "serializing (settleFlush ok w) =
       rest @ (if flushQueued (replay w) then [(nextFlush w, eventBuffer (replay w))] else [])"
    "awaitingFlush (settleFlush ok w) = (if flushQueued (replay w) then awaitingQueued w else [])"
    "awaitingQueued (settleFlush ok w) = (if flushQueued (replay w) then [] else awaitingQueued w)"
    "timers (settleFlush ok w) = timers w"
    "nextTask (settleFlush ok w) = nextTask w"
    "nextFlush (settleFlush ok w) =
       (if flushQueued (replay w) then Suc (nextFlush w) else nextFlush w)"
    "history (settleFlush ok w) =
       history w @ [SegmentSettled n ok] @
       resume_entries (settled_engine ok w) (awaitingFlush w) @
       (if flushQueued (replay w) then [SegmentTaken (nextFlush w) (eventBuffer (replay w))] else [])"
  using assms
  by (simp_all add: settleFlush_def Let_def fold_transition_resume runFlush_def settled_engine_def)

lemma transition_begin_fields:
  "replay (transition_begin k w) =
     (if flushInProgress (replay w) then (replay w)\<lparr>flushQueued := True\<rparr>
      else (replay w)\<lparr>eventBuffer := [], flushInProgress := True\<rparr>)"
  "serializing (transition_begin k w) =
     serializing w @ (if flushInProgress (replay w) then [] else [(nextFlush w, eventBuffer (replay w))])"
  "awaitingFlush (transition_begin k w) =
     awaitingFlush w @ (if awaitsNextFlush w then [] else [k])"
  "awaitingQueued (transition_begin k w) =
     awaitingQueued w @ (if awaitsNextFlush w then [k] else [])"
  "timers (transition_begin k w) = timers w"
  "nextTask (transition_begin k w) = nextTask w"
  "nextFlush (transition_begin k w) =
     (if flushInProgress (replay w) then nextFlush w else Suc (nextFlush w))"
  "history (transition_begin k w) =
     history w @ [FlushCalled k] @
     (if flushInProgress (replay w) then [] else [SegmentTaken (nextFlush w) (eventBuffer (replay w))])"
  by (simp_all add: transition_begin_def Let_def flushImmediate_def flush_def runFlush_def
      awaitsNextFlush_def)

lemma flush_fields:
  "replay (flush b w) =
     (if \<not> b then (replay w)\<lparr>debouncePending := True\<rparr>
      else if flushInProgress (replay w) then (replay w)\<lparr>flushQueued := True\<rparr>
      else (replay w)\<lparr>eventBuffer := [], flushInProgress := True\<rparr>)"
  "serializing (flush b w) =
     serializing w @
     (if b \<and> \<not> flushInProgress (replay w) then [(nextFlush w, eventBuffer (replay w))] else [])"
  "awaitingFlush (flush b w) = awaitingFlush w"
  "awaitingQueued (flush b w) = awaitingQueued w"
  "timers (flush b w) = timers w"
  "nextTask (flush b w) = nextTask w"
  "nextFlush (flush b w) =
     (if b \<and> \<not> flushInProgress (replay w) then Suc (nextFlush w) else nextFlush w)"
  "history (flush b w) =
     history w @
     (if b \<and> \<not> flushInProgress (replay w)
      then [SegmentTaken (nextFlush w) (eventBuffer (replay w))] else [])"
  by (simp_all add: flush_def runFlush_def)

lemma debounceElapsed_eq:
  "debounceElapsed w =
     (if debouncePending (replay w)
      then flush True (w\<lparr>replay := (replay w)\<lparr>debouncePending := False\<rparr>\<rparr>) else w)"
  by (simp add: debounceElapsed_def)

lemma ingest_fields:
  "replay (ingest r w) =
     (if engineActive (replay w)
      then (replay w)\<lparr>eventBuffer := eventBuffer (replay w) @ [r],
             debouncePending := (recordingMode (replay w) = SessionMode \<or> debouncePending (replay w))\<rparr>
      else replay w)"
  "serializing (ingest r w) = serializing w"
  "awaitingFlush (ingest r w) = awaitingFlush w"
  "awaitingQueued (ingest r w) = awaitingQueued w"
  "timers (ingest r w) = timers w"
  "nextTask (ingest r w) = nextTask w"
  "nextFlush (ingest r w) = nextFlush w"
  "history (ingest r w) = history w @ (if engineActive (replay w) then [Ingested r] else [])"
  by (simp_all add: ingest_def Let_def flush_def)

lemma coordinated_cong:
  "serializing w' = serializing w \<Longrightarrow> flushInProgress (replay w') = flushInProgress (replay w) \<Longrightarrow>
   flushQueued (replay w') = flushQueued (replay w) \<Longrightarrow> awaitingQueued w' = awaitingQueued w \<Longrightarrow>
   awaitingFlush w' = awaitingFlush w \<Longrightarrow> coordinated w' = coordinated w"
  by (simp add: coordinated_def)




lemma coordinated_listener: "coordinated (snd (handleGlobalEventListener w ev)) = coordinated w"
  by (rule coordinated_cong) simp_all

lemma coordinated_runFlush:
  "coordinated w \<Longrightarrow> \<not> flushInProgress (replay w) \<Longrightarrow> coordinated (runFlush w)"
  by (auto simp add: coordinated_def runFlush_def)

lemma coordinated_flush: "coordinated w \<Longrightarrow> coordinated (flush b w)"
  by (auto simp add: flush_def coordinated_def runFlush_def)

lemma coordinated_transition_begin: "coordinated w \<Longrightarrow> coordinated (transition_begin k w)"
  by (auto simp add: transition_begin_def awaitsNextFlush_def Let_def flushImmediate_def flush_def
      coordinated_def runFlush_def)

lemma coordinated_ingest: "coordinated w \<Longrightarrow> coordinated (ingest r w)"
  by (auto simp add: ingest_def Let_def flush_def coordinated_def)

lemma coordinated_debounceElapsed: "coordinated w \<Longrightarrow> coordinated (debounceElapsed w)"
  by (auto simp add: debounceElapsed_def flush_def coordinated_def runFlush_def)

lemma settleFlush_idle: "serializing w = [] \<Longrightarrow> settleFlush ok w = w"
  by (simp add: settleFlush_def)

lemma coordinated_settleFlush: "coordinated w \<Longrightarrow> coordinated (settleFlush ok w)"
proof (cases "serializing w")
  case Nil
  assume "coordinated w"
  then show ?thesis by (simp add: settleFlush_idle Nil)
next
  case (Cons p rest)
  assume c: "coordinated w"
  then have rest: "rest = []" by (simp add: coordinated_def Cons)
  obtain n seg where p: "p = (n, seg)" by (cases p)
  from c show ?thesis
    by (auto simp add: settleFlush_def Cons rest p Let_def fold_transition_resume runFlush_def
        coordinated_def)
qed

lemma coordinated_step: "coordinated w \<Longrightarrow> coordinated (step w a)"
proof (cases a)
  case TimerFires
  assume c: "coordinated w"
  show ?thesis
  proof (cases "timers w")
    case Nil
    with c show ?thesis by (simp add: TimerFires)
  next
    case (Cons k ks)
    have "coordinated (w\<lparr>timers := ks\<rparr>) = coordinated w"
      by (rule coordinated_cong) simp_all
    with c show ?thesis
      by (simp add: TimerFires Cons coordinated_transition_begin)
  qed
qed (simp_all add: coordinated_listener coordinated_flush coordinated_ingest
      coordinated_debounceElapsed coordinated_settleFlush)

lemma coordinated_run: "coordinated w \<Longrightarrow> coordinated (run w as)"
  unfolding run_def by (induction as arbitrary: w) (simp_all add: coordinated_step)

lemma coordinated_initial: "coordinated (initial_world dbg opts s)"
  by (simp add: coordinated_def initial_world_def initial_container_def)

section \<open>Every ingested record is taken by one flush\<close>

lemma ingested_append [simp]: "ingested (h @ es) = ingested h @ ingested es"
  by (simp add: ingested_def)

lemma flushed_append [simp]: "flushed (h @ es) = flushed h @ flushed es"
  by (simp add: flushed_def)

lemma ingested_simps [simp]:
  "ingested [] = []"
  "ingested (e # es) = ingested_by e @ ingested es"
  by (simp_all add: ingested_def)

lemma flushed_simps [simp]:
  "flushed [] = []"
  "flushed (e # es) = taken_by e @ flushed es"
  by (simp_all add: flushed_def)

lemma resume_entries_no_data [simp]:
  "ingested (resume_entries a ks) = []" "flushed (resume_entries a ks) = []"
  by (induction ks) simp_all

lemma buffer_accounted_listener:
  "buffer_accounted (snd (handleGlobalEventListener w ev)) = buffer_accounted w"
  by (simp add: buffer_accounted_def)

lemma buffer_accounted_flush: "buffer_accounted w \<Longrightarrow> buffer_accounted (flush b w)"
  by (simp add: buffer_accounted_def flush_def runFlush_def)

lemma buffer_accounted_transition_begin:
  "buffer_accounted w \<Longrightarrow> buffer_accounted (transition_begin k w)"
  by (simp add: buffer_accounted_def transition_begin_def awaitsNextFlush_def Let_def flushImmediate_def flush_def
      runFlush_def)

lemma buffer_accounted_ingest: "buffer_accounted w \<Longrightarrow> buffer_accounted (ingest r w)"
  by (simp add: buffer_accounted_def ingest_def Let_def flush_def)

lemma buffer_accounted_debounceElapsed:
  "buffer_accounted w \<Longrightarrow> buffer_accounted (debounceElapsed w)"
  by (simp add: buffer_accounted_def debounceElapsed_def flush_def runFlush_def)

lemma buffer_accounted_settleFlush:
  "buffer_accounted w \<Longrightarrow> buffer_accounted (settleFlush ok w)"
  by (cases "serializing w")
     (auto simp add: buffer_accounted_def settleFlush_def Let_def fold_transition_resume
        runFlush_def)

lemma buffer_accounted_step: "buffer_accounted w \<Longrightarrow> buffer_accounted (step w a)"
proof (cases a)
  case TimerFires
  assume c: "buffer_accounted w"
  show ?thesis
  proof (cases "timers w")
    case Nil
    with c show ?thesis by (simp add: TimerFires)
  next
    case (Cons k ks)
    have "buffer_accounted (w\<lparr>timers := ks\<rparr>) = buffer_accounted w"
      by (simp add: buffer_accounted_def)
    with c show ?thesis
      by (simp add: TimerFires Cons buffer_accounted_transition_begin)
  qed
qed (simp_all add: buffer_accounted_listener buffer_accounted_flush buffer_accounted_ingest
      buffer_accounted_debounceElapsed buffer_accounted_settleFlush)

lemma buffer_accounted_run: "buffer_accounted w \<Longrightarrow> buffer_accounted (run w as)"
  unfolding run_def by (induction as arbitrary: w) (simp_all add: buffer_accounted_step)

lemma buffer_accounted_initial: "buffer_accounted (initial_world dbg opts s)"
  by (simp add: buffer_accounted_def initial_world_def initial_container_def)

section \<open>The history only grows, and a recorded request is served\<close>

lemma history_listener: "prefix (history w) (history (snd (handleGlobalEventListener w ev)))"
  by simp

lemma history_flush: "prefix (history w) (history (flush b w))"
  by (simp add: flush_def runFlush_def)

lemma history_transition_begin:
  "prefix (history w) (history (transition_begin k w))"
  by (simp add: transition_begin_def awaitsNextFlush_def Let_def flushImmediate_def flush_def runFlush_def)

lemma history_ingest: "prefix (history w) (history (ingest r w))"
  by (simp add: ingest_def Let_def flush_def)

lemma history_debounceElapsed: "prefix (history w) (history (debounceElapsed w))"
  by (simp add: debounceElapsed_def flush_def runFlush_def)

lemma history_settleFlush: "prefix (history w) (history (settleFlush ok w))"
  by (cases "serializing w")
     (auto simp add: settleFlush_def Let_def fold_transition_resume runFlush_def)

lemma history_step: "prefix (history w) (history (step w a))"
proof (cases a)
  case TimerFires
  show ?thesis
  proof (cases "timers w")
    case Nil
    then show ?thesis by (simp add: TimerFires)
  next
    case (Cons k ks)
    have "prefix (history (w\<lparr>timers := ks\<rparr>)) (history (transition_begin k (w\<lparr>timers := ks\<rparr>)))"
      by (rule history_transition_begin)
    then show ?thesis by (simp add: TimerFires Cons)
  qed
qed (simp_all add: history_listener history_flush history_ingest history_debounceElapsed
      history_settleFlush)

lemma history_run: "prefix (history w) (history (run w as))"
  unfolding run_def
proof (induction as arbitrary: w)
  case Nil
  show ?case by simp
next
  case (Cons a as)
  have "prefix (history w) (history (step w a))" by (rule history_step)
  also have "prefix (history (step w a)) (history (foldl step (step w a) as))" by (rule Cons.IH)
  finally show ?case by simp
qed

lemma ingested_mono: "prefix h h' \<Longrightarrow> prefix (ingested h) (ingested h')"
  by (auto simp add: prefix_def)

lemma flushed_mono: "prefix h h' \<Longrightarrow> prefix (flushed h) (flushed h')"
  by (auto simp add: prefix_def)





lemma flush_immediate_idle:
  "\<not> flushInProgress (replay w) \<Longrightarrow>
   flush True w = runFlush w"
  by (simp add: flush_def)



lemmas loop_defs = run_def ingest_def flush_def runFlush_def settleFlush_def Let_def
  fold_transition_resume initial_world_def initial_container_def buffering_session_def
  plain_options_def debounceElapsed_def transition_begin_def awaitsNextFlush_def flushImmediate_def


section \<open>Each run of the callback goes through its steps in order\<close>

lemma task_entries_simps [simp]:
  "task_entries k [] = []"
  "task_entries k (e # es) = (if entry_task e = Some k then [e] else []) @ task_entries k es"
  "task_entries k (h @ es) = task_entries k h @ task_entries k es"
  by (simp_all add: task_entries_def)

lemma task_entries_resume_other:
  "k \<notin> set ks \<Longrightarrow> task_entries k (resume_entries a ks) = []"
  by (induction ks) auto

lemma task_entries_resume:
  "distinct ks \<Longrightarrow> k \<in> set ks \<Longrightarrow>
   task_entries k (resume_entries a ks) =
     (if a then [FlushCompleted k, EngineStopped k True, ModeSwitched k, EngineStarted k]
      else [FlushCompleted k, EngineStopped k False])"
  by (induction ks) (auto simp add: task_entries_resume_other)

lemma queues_ok_listener:
  "queues_ok w \<Longrightarrow> queues_ok (snd (handleGlobalEventListener w ev))"
  by (auto simp add: queues_ok_def queues_def intro: less_SucI)

lemma task_ok_listener:
  "queues_ok w \<Longrightarrow> task_ok k w \<Longrightarrow> task_ok k (snd (handleGlobalEventListener w ev))"
  by (auto simp add: queues_ok_def queues_def task_ok_def less_Suc_eq split: if_splits)

lemma queues_ok_timer:
  "queues_ok w \<Longrightarrow> timers w = k0 # ks \<Longrightarrow> queues_ok (transition_begin k0 (w\<lparr>timers := ks\<rparr>))"
  by (auto simp add: queues_ok_def queues_def transition_begin_fields)

lemma task_ok_timer:
  "queues_ok w \<Longrightarrow> task_ok k w \<Longrightarrow> timers w = k0 # ks \<Longrightarrow>
   task_ok k (transition_begin k0 (w\<lparr>timers := ks\<rparr>))"
  by (auto simp add: queues_ok_def queues_def task_ok_def transition_begin_fields
      split: if_splits)

lemma queues_ok_settleFlush: "queues_ok w \<Longrightarrow> queues_ok (settleFlush ok w)"
proof (cases "serializing w")
  case Nil
  assume "queues_ok w"
  then show ?thesis by (simp add: settleFlush_idle Nil)
next
  case (Cons p rest)
  assume q: "queues_ok w"
  obtain n seg where "p = (n, seg)" by (cases p)
  with Cons q show ?thesis
    by (auto simp add: queues_ok_def queues_def settleFlush_fields)
qed

lemma task_ok_settleFlush:
  assumes "queues_ok w" "task_ok k w"
  shows "task_ok k (settleFlush ok w)"
proof (cases "serializing w")
  case Nil
  with assms show ?thesis by (simp add: settleFlush_idle)
next
  case (Cons p rest)
  obtain n seg where "p = (n, seg)" by (cases p)
  with Cons have s: "serializing w = (n, seg) # rest" by simp
  from assms(1) have d: "distinct (awaitingFlush w)"
    and x: "set (timers w) \<inter> set (awaitingFlush w) = {}"
      "set (awaitingFlush w) \<inter> set (awaitingQueued w) = {}"
      "set (timers w) \<inter> set (awaitingQueued w) = {}"
    and b: "\<forall>k \<in> set (awaitingFlush w). k < nextTask w"
    by (auto simp add: queues_ok_def queues_def)
  show ?thesis
  proof (cases "k \<in> set (awaitingFlush w)")
    case True
    with x have "k \<notin> set (timers w)" "k \<notin> set (awaitingQueued w)" by auto
    with True assms(2) b show ?thesis
      by (cases "settled_engine ok w")
         (simp_all add: task_ok_def settleFlush_fields [OF s] task_entries_resume [OF d True]
            transition_sequence_def)
  next
    case False
    with assms(2) show ?thesis
      by (auto simp add: task_ok_def settleFlush_fields [OF s] task_entries_resume_other
          split: if_splits)
  qed
qed

lemma queues_ok_flush: "queues_ok (flush b w) = queues_ok w"
  by (simp add: queues_ok_def queues_def flush_fields)

lemma task_ok_flush: "task_ok k (flush b w) = task_ok k w"
  by (simp add: task_ok_def flush_fields)

lemma queues_ok_ingest: "queues_ok (ingest r w) = queues_ok w"
  by (simp add: queues_ok_def queues_def ingest_fields)

lemma task_ok_ingest: "task_ok k (ingest r w) = task_ok k w"
  by (simp add: task_ok_def ingest_fields)

lemma queues_ok_debounceElapsed: "queues_ok (debounceElapsed w) = queues_ok w"
  by (simp add: debounceElapsed_eq queues_ok_flush) (simp add: queues_ok_def queues_def)

lemma task_ok_debounceElapsed: "task_ok k (debounceElapsed w) = task_ok k w"
  by (simp add: debounceElapsed_eq task_ok_flush) (simp add: task_ok_def)

lemma tasks_ok_step: "tasks_ok w \<Longrightarrow> tasks_ok (step w a)"
  unfolding tasks_ok_def
  by (cases a)
     (auto simp add: queues_ok_listener task_ok_listener queues_ok_timer task_ok_timer
        queues_ok_settleFlush task_ok_settleFlush queues_ok_flush task_ok_flush
        queues_ok_ingest task_ok_ingest queues_ok_debounceElapsed task_ok_debounceElapsed
        split: list.splits)

lemma tasks_ok_run: "tasks_ok w \<Longrightarrow> tasks_ok (run w as)"
  unfolding run_def by (induction as arbitrary: w) (simp_all add: tasks_ok_step)

lemma tasks_ok_initial: "tasks_ok (initial_world dbg opts s)"
  by (simp add: tasks_ok_def queues_ok_def queues_def task_ok_def initial_world_def)


section \<open>The engine is restarted after the awaited flush has settled\<close>

lemma resume_entries_started:
  "EngineStarted k \<in> set (resume_entries a ks) \<Longrightarrow> a \<and> k \<in> set ks"
  by (induction ks) (auto split: if_splits)

lemma resume_entries_subseq:
  "k \<in> set ks \<Longrightarrow>
   subseq [FlushCompleted k, EngineStopped k True, ModeSwitched k, EngineStarted k]
     (resume_entries True ks)"
  by (induction ks) auto

lemma subseq_snoc: "subseq xs h \<Longrightarrow> subseq (xs @ [e]) (h @ [e])"
  by (rule list_emb_append_mono) simp_all

lemma subseq_extend: "subseq xs h \<Longrightarrow> prefix h h' \<Longrightarrow> subseq xs h'"
  by (auto simp add: prefix_def intro: subseq_rev_drop_many)

lemma scheduled_in_history:
  assumes "task_ok k w" "k \<in> set (timers w)"
  shows "subseq [Scheduled k] (history w)" "EngineStarted k \<notin> set (history w)"
proof -
  from assms have t: "task_entries k (history w) = [Scheduled k]" by (simp add: task_ok_def)
  then have "Scheduled k \<in> set (task_entries k (history w))" by simp
  then have "Scheduled k \<in> set (history w)" by (simp add: task_entries_def)
  then show "subseq [Scheduled k] (history w)" by (simp add: subseq_singleton_left)
  have "EngineStarted k \<notin> set (task_entries k (history w))" by (simp add: t)
  then show "EngineStarted k \<notin> set (history w)" by (simp add: task_entries_def)
qed

subsection \<open>A callback that has fired stays out of the timer queue\<close>

lemma fired_settleFlush: "fired k (settleFlush ok w) = fired k w"
proof (cases "serializing w")
  case Nil
  then show ?thesis by (simp add: settleFlush_idle)
next
  case (Cons p rest)
  obtain n seg where "p = (n, seg)" by (cases p)
  with Cons show ?thesis by (simp add: fired_def settleFlush_fields)
qed

lemma fired_step: "fired k w \<Longrightarrow> fired k (step w a)"
proof (cases a)
  case (GlobalEvent ev)
  assume "fired k w"
  then show ?thesis by (auto simp add: GlobalEvent fired_def)
next
  case TimerFires
  assume "fired k w"
  then show ?thesis
    by (cases "timers w") (auto simp add: TimerFires fired_def transition_begin_fields)
next
  case (FlushSettles ok)
  assume "fired k w"
  then show ?thesis by (simp add: FlushSettles fired_settleFlush)
next
  case (EngineEmits r)
  assume "fired k w"
  then show ?thesis by (simp add: EngineEmits fired_def ingest_fields)
next
  case DebounceElapses
  assume "fired k w"
  then show ?thesis by (simp add: DebounceElapses fired_def debounceElapsed_eq flush_fields)
next
  case (FlushRequested b)
  assume "fired k w"
  then show ?thesis by (simp add: FlushRequested fired_def flush_fields)
qed

lemma fired_begin:
  assumes "queues_ok w" "timers w = k # ks"
  shows "fired k (step w TimerFires)" "k \<notin> set (awaitingFlush w)" "k \<notin> set (awaitingQueued w)"
  using assms by (auto simp add: fired_def queues_ok_def queues_def transition_begin_fields)

subsection \<open>Whichever flush fulfils the promise\<close>

lemma promise_order_ok_listener:
  "promise_order_ok k w \<Longrightarrow> promise_order_ok k (snd (handleGlobalEventListener w ev))"
  unfolding promise_order_ok_def
  by (auto simp add: subseq_singleton_left intro: subseq_rev_drop_many)

lemma promise_order_ok_timer:
  assumes "promise_order_ok k w" "timers w = k0 # ks" "promise_order_ok k0 w"
  shows "promise_order_ok k (transition_begin k0 (w\<lparr>timers := ks\<rparr>))"
proof -
  let ?w = "w\<lparr>timers := ks\<rparr>"
  let ?w' = "transition_begin k0 ?w"
  have mono: "subseq xs (history ?w')" if "subseq xs (history w)" for xs
    using that by (simp add: transition_begin_fields) (auto intro: subseq_rev_drop_many)
  have sched: "subseq [Scheduled k0] (history w)"
    using assms(2,3) by (simp add: promise_order_ok_def)
  have called: "subseq [Scheduled k0, FlushCalled k0] (history ?w')"
  proof -
    have "subseq ([Scheduled k0] @ [FlushCalled k0]) (history w @ [FlushCalled k0])"
      using sched by (rule subseq_snoc)
    then have "subseq [Scheduled k0, FlushCalled k0] ((history w @ [FlushCalled k0]) @ zs)" for zs
      by (simp del: append_assoc) (rule subseq_rev_drop_many)
    from this [of "[]"] this [of "[SegmentTaken (nextFlush w) (eventBuffer (replay w))]"]
    show ?thesis by (simp add: transition_begin_fields)
  qed
  have t: "subseq [Scheduled k] (history ?w')" if "k \<in> set (timers ?w')"
    using that assms(1,2) by (auto simp add: transition_begin_fields promise_order_ok_def intro: mono)
  have q: "subseq [Scheduled k, FlushCalled k] (history ?w')" if "k \<in> set (awaitingQueued ?w')"
  proof (cases "k \<in> set (awaitingQueued w)")
    case True
    then show ?thesis using assms(1) by (auto simp add: promise_order_ok_def intro: mono)
  next
    case False
    with that have "k = k0" by (auto simp add: transition_begin_fields split: if_splits)
    with called show ?thesis by simp
  qed
  have f: "subseq [Scheduled k, FlushCalled k] (history ?w')" if "k \<in> set (awaitingFlush ?w')"
  proof (cases "k \<in> set (awaitingFlush w)")
    case True
    then show ?thesis using assms(1) by (auto simp add: promise_order_ok_def intro: mono)
  next
    case False
    with that have "k = k0" by (auto simp add: transition_begin_fields split: if_splits)
    with called show ?thesis by simp
  qed
  have e: "\<exists>n ok.
            subseq [Scheduled k, FlushCalled k, SegmentSettled n ok,
                    FlushCompleted k, EngineStopped k True, ModeSwitched k, EngineStarted k]
              (history ?w')"
    if "EngineStarted k \<in> set (history ?w')"
  proof -
    from that have "EngineStarted k \<in> set (history w)"
      by (simp add: transition_begin_fields split: if_splits)
    with assms(1) show ?thesis by (auto simp add: promise_order_ok_def intro: mono)
  qed
  from t q f e show ?thesis unfolding promise_order_ok_def by blast
qed

lemma promise_order_ok_settleFlush:
  assumes "promise_order_ok k w"
  shows "promise_order_ok k (settleFlush ok w)"
proof (cases "serializing w")
  case Nil
  with assms show ?thesis by (simp add: settleFlush_idle)
next
  case (Cons p rest)
  obtain n seg where "p = (n, seg)" by (cases p)
  with Cons have s: "serializing w = (n, seg) # rest" by simp
  let ?w' = "settleFlush ok w"
  note f = settleFlush_fields [OF s]
  have mono: "subseq xs (history ?w')" if "subseq xs (history w)" for xs
    using that by (simp add: f) (auto intro: subseq_rev_drop_many)
  have t: "subseq [Scheduled k] (history ?w')" if "k \<in> set (timers ?w')"
    using that assms by (auto simp add: f promise_order_ok_def intro: mono)
  have q: "subseq [Scheduled k, FlushCalled k] (history ?w')" if "k \<in> set (awaitingQueued ?w')"
    using that assms by (auto simp add: f promise_order_ok_def intro: mono split: if_splits)
  have a: "subseq [Scheduled k, FlushCalled k] (history ?w')" if "k \<in> set (awaitingFlush ?w')"
    using that assms by (auto simp add: f promise_order_ok_def intro: mono split: if_splits)
  have e: "\<exists>n ok.
            subseq [Scheduled k, FlushCalled k, SegmentSettled n ok,
                    FlushCompleted k, EngineStopped k True, ModeSwitched k, EngineStarted k]
              (history ?w')"
    if "EngineStarted k \<in> set (history ?w')"
  proof (cases "EngineStarted k \<in> set (history w)")
    case True
    with assms show ?thesis by (auto simp add: promise_order_ok_def intro: mono)
  next
    case False
    with that have "EngineStarted k \<in> set (resume_entries (settled_engine ok w) (awaitingFlush w))"
      by (simp add: f split: if_splits)
    then have en: "settled_engine ok w" and k: "k \<in> set (awaitingFlush w)"
      using resume_entries_started by blast+
    from k assms have "subseq [Scheduled k, FlushCalled k] (history w)"
      by (auto simp add: promise_order_ok_def)
    then have "subseq ([Scheduled k, FlushCalled k] @ [SegmentSettled n ok])
        (history w @ [SegmentSettled n ok])"
      by (rule subseq_snoc)
    then have "subseq (([Scheduled k, FlushCalled k] @ [SegmentSettled n ok]) @
          [FlushCompleted k, EngineStopped k True, ModeSwitched k, EngineStarted k])
        ((history w @ [SegmentSettled n ok]) @ resume_entries True (awaitingFlush w))"
      using resume_entries_subseq [OF k] by (rule list_emb_append_mono)
    then have "subseq [Scheduled k, FlushCalled k, SegmentSettled n ok,
          FlushCompleted k, EngineStopped k True, ModeSwitched k, EngineStarted k]
        (history w @ [SegmentSettled n ok] @ resume_entries True (awaitingFlush w))"
      by simp
    then have "subseq [Scheduled k, FlushCalled k, SegmentSettled n ok,
          FlushCompleted k, EngineStopped k True, ModeSwitched k, EngineStarted k]
        ((history w @ [SegmentSettled n ok] @ resume_entries True (awaitingFlush w)) @
          (if flushQueued (replay w) then [SegmentTaken (nextFlush w) (eventBuffer (replay w))] else []))"
      by (rule subseq_rev_drop_many)
    with en have "subseq [Scheduled k, FlushCalled k, SegmentSettled n ok,
          FlushCompleted k, EngineStopped k True, ModeSwitched k, EngineStarted k] (history ?w')"
      by (simp add: f)
    then show ?thesis by blast
  qed
  from t q a e show ?thesis unfolding promise_order_ok_def by blast
qed

lemma promise_order_ok_flush: "promise_order_ok k w \<Longrightarrow> promise_order_ok k (flush b w)"
proof -
  assume a: "promise_order_ok k w"
  have mono: "subseq xs (history (flush b w))" if "subseq xs (history w)" for xs
    using that by (simp add: flush_fields) (auto intro: subseq_rev_drop_many)
  show ?thesis using a unfolding promise_order_ok_def
    by (auto simp add: flush_fields intro: mono split: if_splits)
qed

lemma promise_order_ok_ingest: "promise_order_ok k w \<Longrightarrow> promise_order_ok k (ingest r w)"
proof -
  assume a: "promise_order_ok k w"
  have mono: "subseq xs (history (ingest r w))" if "subseq xs (history w)" for xs
    using that by (simp add: ingest_fields) (auto intro: subseq_rev_drop_many)
  show ?thesis using a unfolding promise_order_ok_def
    by (auto simp add: ingest_fields intro: mono split: if_splits)
qed

lemma promise_order_ok_debounceElapsed:
  assumes "promise_order_ok k w"
  shows "promise_order_ok k (debounceElapsed w)"
proof (cases "debouncePending (replay w)")
  case False
  with assms show ?thesis by (simp add: debounceElapsed_eq)
next
  case True
  let ?w = "w\<lparr>replay := (replay w)\<lparr>debouncePending := False\<rparr>\<rparr>"
  have "promise_order_ok k ?w = promise_order_ok k w" by (simp add: promise_order_ok_def)
  with assms have "promise_order_ok k (flush True ?w)"
    using promise_order_ok_flush by blast
  with True show ?thesis by (simp add: debounceElapsed_eq)
qed

lemma settled_before_restart_step:
  "settled_before_restart w \<Longrightarrow> settled_before_restart (step w a)"
  unfolding settled_before_restart_def
  by (cases a)
     (auto simp add: promise_order_ok_listener promise_order_ok_timer
        promise_order_ok_settleFlush promise_order_ok_flush promise_order_ok_ingest
        promise_order_ok_debounceElapsed split: list.splits)

lemma settled_before_restart_run:
  "settled_before_restart w \<Longrightarrow> settled_before_restart (run w as)"
  unfolding run_def by (induction as arbitrary: w) (simp_all add: settled_before_restart_step)

lemma settled_before_restart_initial: "settled_before_restart (initial_world dbg opts s)"
  by (simp add: settled_before_restart_def promise_order_ok_def) (simp add: initial_world_def)

subsection \<open>When the promise is that of the requested flush\<close>















section \<open>Records ingested before the transition stay out of later segments\<close>

lemma split_extend:
  assumes "prefix h h'" "\<exists>pre post. h = pre @ e # post \<and> prefix I (flushed pre)"
  shows "\<exists>pre post. h' = pre @ e # post \<and> prefix I (flushed pre)"
proof -
  from assms obtain pre post es where "h = pre @ e # post" "prefix I (flushed pre)" "h' = h @ es"
    by (auto simp add: prefix_def)
  then have "h' = pre @ e # (post @ es)" by simp
  with \<open>prefix I (flushed pre)\<close> show ?thesis by blast
qed

lemma prefix_ingested_extend:
  "prefix I (ingested h) \<Longrightarrow> prefix h h' \<Longrightarrow> prefix I (ingested h')"
  using ingested_mono prefix_order.trans by blast

lemma prefix_flushed_extend:
  "prefix I (flushed h) \<Longrightarrow> prefix h h' \<Longrightarrow> prefix I (flushed h')"
  using flushed_mono prefix_order.trans by blast

text \<open>A step that resumes no callback and leaves the awaited flush as it is.\<close>

lemma segregated_extend:
  assumes "segregated I k w" "prefix (history w) (history w')"
    and "k \<in> set (awaitingFlush w') \<Longrightarrow> k \<in> set (awaitingFlush w) \<or> prefix I (flushed (history w'))"
    and "EngineStarted k \<in> set (history w') \<Longrightarrow> EngineStarted k \<in> set (history w)"
  shows "segregated I k w'"
  unfolding segregated_def
proof (intro conjI impI)
  show "prefix I (ingested (history w'))"
    using assms(1,2) by (auto simp add: segregated_def intro: prefix_ingested_extend)
  show "prefix I (flushed (history w'))" if "k \<in> set (awaitingFlush w')"
    using assms(3) [OF that] assms(1,2)
    by (auto simp add: segregated_def intro: prefix_flushed_extend)
  show "\<exists>pre post. history w' = pre @ EngineStarted k # post \<and> prefix I (flushed pre)"
    if "EngineStarted k \<in> set (history w')"
  proof -
    from assms(4) [OF that] assms(1)
    have "\<exists>pre post. history w = pre @ EngineStarted k # post \<and> prefix I (flushed pre)"
      by (simp add: segregated_def)
    with assms(2) show ?thesis by (rule split_extend)
  qed
qed

lemma segregated_listener:
  "segregated I k w \<Longrightarrow> segregated I k (snd (handleGlobalEventListener w ev))"
  by (rule segregated_extend) (auto split: if_splits)

lemma segregated_ingest: "segregated I k w \<Longrightarrow> segregated I k (ingest r w)"
  by (rule segregated_extend) (auto simp add: ingest_fields split: if_splits)

lemma segregated_flush:
  assumes "coordinated w" "segregated I k w"
  shows "segregated I k (flush b w)"
  using assms(2)
proof (rule segregated_extend)
  show "prefix (history w) (history (flush b w))" by (rule history_flush)
  show "k \<in> set (awaitingFlush w) \<or> prefix I (flushed (history (flush b w)))"
    if "k \<in> set (awaitingFlush (flush b w))"
    using that by (simp add: flush_fields)
  show "EngineStarted k \<in> set (history w)" if "EngineStarted k \<in> set (history (flush b w))"
    using that by (simp add: flush_fields split: if_splits)
qed

lemma segregated_debounceElapsed:
  assumes "coordinated w" "segregated I k w"
  shows "segregated I k (debounceElapsed w)"
proof (cases "debouncePending (replay w)")
  case False
  with assms show ?thesis by (simp add: debounceElapsed_eq)
next
  case True
  let ?w = "w\<lparr>replay := (replay w)\<lparr>debouncePending := False\<rparr>\<rparr>"
  have "coordinated ?w = coordinated w" by (rule coordinated_cong) simp_all
  moreover have "segregated I k ?w = segregated I k w" by (simp add: segregated_def)
  ultimately have "segregated I k (flush True ?w)"
    using assms segregated_flush by blast
  with True show ?thesis by (simp add: debounceElapsed_eq)
qed

lemma segregated_timer:
  assumes "buffer_accounted w" "segregated I k w" "timers w = k0 # ks" "k \<noteq> k0"
  shows "segregated I k (transition_begin k0 (w\<lparr>timers := ks\<rparr>))"
proof -
  let ?w = "w\<lparr>timers := ks\<rparr>"
  have s: "segregated I k ?w" using assms(2) by (simp add: segregated_def)
  show ?thesis using s
  proof (rule segregated_extend)
    show "prefix (history ?w) (history (transition_begin k0 ?w))"
      by (rule history_transition_begin)
    show "EngineStarted k \<in> set (history ?w)"
      if "EngineStarted k \<in> set (history (transition_begin k0 ?w))"
      using that by (simp add: transition_begin_fields split: if_splits)
    show "k \<in> set (awaitingFlush ?w) \<or> prefix I (flushed (history (transition_begin k0 ?w)))"
      if "k \<in> set (awaitingFlush (transition_begin k0 ?w))"
      using that assms(4) by (auto simp add: transition_begin_fields split: if_splits)
  qed
qed

lemma segregated_settleFlush:
  assumes "buffer_accounted w" "segregated I k w"
  shows "segregated I k (settleFlush ok w)"
proof (cases "serializing w")
  case Nil
  with assms show ?thesis by (simp add: settleFlush_idle)
next
  case (Cons p rest)
  obtain n seg where "p = (n, seg)" by (cases p)
  with Cons have s: "serializing w = (n, seg) # rest" by simp
  note f = settleFlush_fields [OF s]
  let ?w' = "settleFlush ok w"
  let ?es = "resume_entries (settled_engine ok w) (awaitingFlush w)"
  have p: "prefix (history w) (history ?w')" by (rule history_settleFlush)
  show ?thesis unfolding segregated_def
  proof (intro conjI impI)
    show "prefix I (ingested (history ?w'))"
      using assms(2) p by (auto simp add: segregated_def intro: prefix_ingested_extend)
    show "prefix I (flushed (history ?w'))" if "k \<in> set (awaitingFlush ?w')"
    proof -
      from that have "flushQueued (replay w)" by (simp add: f split: if_splits)
      then have "flushed (history ?w') = ingested (history w)"
        using assms(1) by (simp add: f buffer_accounted_def)
      with assms(2) show ?thesis by (simp add: segregated_def)
    qed
    show "\<exists>pre post. history ?w' = pre @ EngineStarted k # post \<and> prefix I (flushed pre)"
      if e: "EngineStarted k \<in> set (history ?w')"
    proof (cases "EngineStarted k \<in> set (history w)")
      case True
      with assms(2)
      have "\<exists>pre post. history w = pre @ EngineStarted k # post \<and> prefix I (flushed pre)"
        by (simp add: segregated_def)
      with p show ?thesis by (rule split_extend)
    next
      case False
      with e have in_es: "EngineStarted k \<in> set ?es" by (simp add: f split: if_splits)
      then have "k \<in> set (awaitingFlush w)" using resume_entries_started by blast
      with assms(2) have pf: "prefix I (flushed (history w))" by (simp add: segregated_def)
      from in_es obtain e1 e2 where es: "?es = e1 @ EngineStarted k # e2"
        by (meson split_list)
      have "flushed ?es = []" by simp
      then have "flushed e1 = []" unfolding es by simp
      with pf have "prefix I (flushed (history w @ [SegmentSettled n ok] @ e1))" by simp
      moreover have "history ?w' =
          (history w @ [SegmentSettled n ok] @ e1) @ EngineStarted k #
          (e2 @ (if flushQueued (replay w)
                 then [SegmentTaken (nextFlush w) (eventBuffer (replay w))] else []))"
        by (simp add: f es)
      ultimately show ?thesis by blast
    qed
  qed
qed

lemma records_kept_apart_step:
  assumes "records_kept_apart I k w"
  shows "records_kept_apart I k (step w a)"
proof -
  from assms have c: "coordinated w" and b: "buffer_accounted w" and fi: "fired k w"
    and sg: "segregated I k w"
    by (simp_all add: records_kept_apart_def)
  have "segregated I k (step w a)"
  proof (cases a)
    case (GlobalEvent ev)
    with sg show ?thesis by (simp add: segregated_listener)
  next
    case TimerFires
    show ?thesis
    proof (cases "timers w")
      case Nil
      with sg show ?thesis by (simp add: TimerFires)
    next
      case (Cons k0 ks)
      with fi have "k \<noteq> k0" by (auto simp add: fired_def)
      with b sg Cons show ?thesis by (simp add: TimerFires segregated_timer)
    qed
  next
    case (FlushSettles ok)
    with b sg show ?thesis by (simp add: segregated_settleFlush)
  next
    case (EngineEmits r)
    with sg show ?thesis by (simp add: segregated_ingest)
  next
    case DebounceElapses
    with c sg show ?thesis by (simp add: segregated_debounceElapsed)
  next
    case (FlushRequested f)
    with c sg show ?thesis by (simp add: segregated_flush)
  qed
  with c b fi show ?thesis
    by (simp add: records_kept_apart_def coordinated_step buffer_accounted_step fired_step)
qed

lemma records_kept_apart_run:
  "records_kept_apart I k w \<Longrightarrow> records_kept_apart I k (run w as)"
  unfolding run_def by (induction as arbitrary: w) (simp_all add: records_kept_apart_step)

text \<open>
  The timer of run \<open>k\<close> fires while no flush is in progress, or in a container whose
  promise is that of the requested flush.
\<close>

lemma records_kept_apart_begin:
  assumes "coordinated w" "buffer_accounted w" "tasks_ok w" "timers w = k # ks"
    and "awaitRequestedFlush (getOptions (replay w)) \<or> \<not> flushInProgress (replay w)"
    and "prefix I (ingested (history w))"
  shows "records_kept_apart I k (step w TimerFires)"
proof -
  let ?w = "w\<lparr>timers := ks\<rparr>"
  let ?w' = "transition_begin k ?w"
  from assms(3) have qs: "queues_ok w" and tk: "task_ok k w" by (simp_all add: tasks_ok_def)
  have kin: "k \<in> set (timers w)" by (simp add: assms(4))
  note sched = scheduled_in_history [OF tk kin]
  note fb = fired_begin [OF qs assms(4)]
  have p: "prefix (history w) (history ?w')"
    using history_transition_begin [of ?w k] by simp
  have i: "prefix I (ingested (history ?w'))"
    using assms(6) p by (rule prefix_ingested_extend)
  have f: "prefix I (flushed (history ?w'))" if "k \<in> set (awaitingFlush ?w')"
  proof -
    from that fb(2) have "\<not> awaitsNextFlush ?w"
      by (auto simp add: transition_begin_fields split: if_splits)
    with assms(5) have "\<not> flushInProgress (replay w)" by (auto simp add: awaitsNextFlush_def)
    then have "flushed (history ?w') = ingested (history w)"
      using assms(2) by (simp add: transition_begin_fields buffer_accounted_def)
    with assms(6) show ?thesis by simp
  qed
  have e: "EngineStarted k \<notin> set (history ?w')"
    using sched(2) by (simp add: transition_begin_fields)
  from i f e have "segregated I k ?w'" unfolding segregated_def by blast
  with fb(1) coordinated_step [OF assms(1), of TimerFires]
    buffer_accounted_step [OF assms(2), of TimerFires]
  show ?thesis by (simp add: records_kept_apart_def assms(4))
qed

lemma started_once:
  assumes "task_ok k w" "history w = pre @ EngineStarted k # post"
  shows "EngineStarted k \<notin> set pre \<and> EngineStarted k \<notin> set post"
proof -
  let ?E = "EngineStarted k"
  have sub: "filter (\<lambda>e. e = ?E) (task_entries k h) = filter (\<lambda>e. e = ?E) h" for h
    by (induction h) auto
  have "?E \<in> set (task_entries k (history w))"
    by (simp add: assms(2))
  with assms(1) have "task_entries k (history w) = transition_sequence k True"
    by (auto simp add: task_ok_def transition_sequence_def split: if_splits)
  then have "filter (\<lambda>e. e = ?E) (task_entries k (history w)) = [?E]"
    by (simp add: transition_sequence_def)
  then have "filter (\<lambda>e. e = ?E) (history w) = [?E]" by (simp only: sub)
  then have "length (filter (\<lambda>e. e = ?E) (history w)) = 1" by simp
  then have "length (filter (\<lambda>e. e = ?E) pre) = 0 \<and> length (filter (\<lambda>e. e = ?E) post) = 0"
    by (simp add: assms(2))
  then show ?thesis by (auto simp add: filter_empty_conv)
qed

text \<open>
  C3, as far as it holds. In every state reached from the start of a recording the
  records taken by flushes followed by the buffer are the records ingested, in order, so
  no record is in two segments. Let an event that triggers the transition arrive in such
  a state, let the timer of the callback it schedules fire later, while no flush is in
  progress or in a container whose promise of \<^verbatim>\<open>flushImmediate\<close> is that of the
  requested flush, and let that run of the callback restart the engine. Then the engine
  was restarted by that run once; every record ingested before the event arrived was
  taken by a flush before the restart; and the records taken before the restart, the
  records taken after it and the buffer, in this order, are the records ingested, each
  once. So no record ingested before the trigger is in a segment taken after the restart.
\<close>

theorem records_before_trigger_only_in_segments_before_restart:
  assumes "w1 = run (initial_world dbg opts s) as1"
    and "w2 = run (step w1 (GlobalEvent ev)) as2"
    and "w3 = run (step w2 TimerFires) as3"
  shows "flushed (history w1) @ eventBuffer (replay w1) = ingested (history w1) \<and>
    (recordingMode (replay w1) = ErrorMode \<and> exception ev \<noteq> None \<and>
     transaction_trace_id ev = None \<and>
     timers w2 = nextTask w1 # ks \<and>
     (awaitRequestedFlush (getOptions (replay w2)) \<or> \<not> flushInProgress (replay w2)) \<and>
     EngineStarted (nextTask w1) \<in> set (history w3) \<longrightarrow>
       timers (step w1 (GlobalEvent ev)) = timers w1 @ [nextTask w1] \<and>
       (\<exists>pre post. history w3 = pre @ EngineStarted (nextTask w1) # post \<and>
          EngineStarted (nextTask w1) \<notin> set pre \<and> EngineStarted (nextTask w1) \<notin> set post \<and>
          prefix (ingested (history w1)) (flushed pre) \<and>
          flushed pre @ flushed post @ eventBuffer (replay w3) = ingested (history w3)))"
proof -
  let ?k = "nextTask w1" and ?I = "ingested (history w1)"
  let ?w1' = "step w1 (GlobalEvent ev)"
  have c1: "coordinated w1" and b1: "buffer_accounted w1" and t1: "tasks_ok w1"
    unfolding assms(1)
    by (simp_all add: coordinated_run coordinated_initial buffer_accounted_run
        buffer_accounted_initial tasks_ok_run tasks_ok_initial)
  have c2: "coordinated w2"
    unfolding assms(2) by (rule coordinated_run) (rule coordinated_step [OF c1])
  have b2: "buffer_accounted w2"
    unfolding assms(2) by (rule buffer_accounted_run) (rule buffer_accounted_step [OF b1])
  have t2: "tasks_ok w2"
    unfolding assms(2) by (rule tasks_ok_run) (rule tasks_ok_step [OF t1])
  have "prefix (history w1) (history ?w1')" by (rule history_step)
  moreover have "prefix (history ?w1') (history w2)" unfolding assms(2) by (rule history_run)
  ultimately have "prefix (history w1) (history w2)" by (rule prefix_order.trans)
  then have i2: "prefix ?I (ingested (history w2))" by (rule ingested_mono)
  have "tasks_ok (step w2 TimerFires)" using t2 by (rule tasks_ok_step)
  then have "tasks_ok w3" unfolding assms(3) by (rule tasks_ok_run)
  then have t3: "task_ok ?k w3" by (simp add: tasks_ok_def)
  have main: "timers ?w1' = timers w1 @ [?k] \<and>
       (\<exists>pre post. history w3 = pre @ EngineStarted ?k # post \<and>
          EngineStarted ?k \<notin> set pre \<and> EngineStarted ?k \<notin> set post \<and>
          prefix ?I (flushed pre) \<and>
          flushed pre @ flushed post @ eventBuffer (replay w3) = ingested (history w3))"
    if trig: "recordingMode (replay w1) = ErrorMode" "exception ev \<noteq> None"
        "transaction_trace_id ev = None"
      and head: "timers w2 = ?k # ks"
      and promise: "awaitRequestedFlush (getOptions (replay w2)) \<or> \<not> flushInProgress (replay w2)"
      and started: "EngineStarted ?k \<in> set (history w3)"
  proof -
    from trig have "triggers_transition w1 ev" by (simp add: triggers_transition_def)
    then have sched: "timers ?w1' = timers w1 @ [?k]" by simp
    from c2 b2 t2 head promise i2 have "records_kept_apart ?I ?k (step w2 TimerFires)"
      by (rule records_kept_apart_begin)
    then have "records_kept_apart ?I ?k w3"
      unfolding assms(3) by (rule records_kept_apart_run)
    then have b3: "buffer_accounted w3" and s3: "segregated ?I ?k w3"
      by (simp_all add: records_kept_apart_def)
    from s3 started obtain pre post where
      h: "history w3 = pre @ EngineStarted ?k # post" and p: "prefix ?I (flushed pre)"
      by (auto simp add: segregated_def)
    from started_once [OF t3 h]
    have once: "EngineStarted ?k \<notin> set pre \<and> EngineStarted ?k \<notin> set post" .
    from b3 have "flushed pre @ flushed post @ eventBuffer (replay w3) = ingested (history w3)"
      by (simp add: buffer_accounted_def h)
    with h p once sched show ?thesis by blast
  qed
  from b1 have "flushed (history w1) @ eventBuffer (replay w1) = ingested (history w1)"
    by (simp only: buffer_accounted_def)
  with main show ?thesis by blast
qed

lemma segregation_scenario:
  "history (run (initial_world False plain_options buffering_session) [EngineEmits 5, EngineEmits 6]) =
     [Ingested 5, Ingested 6]"
  "nextTask (run (initial_world False plain_options buffering_session) [EngineEmits 5, EngineEmits 6]) = 0"
  "recordingMode (replay (run (initial_world False plain_options buffering_session)
     [EngineEmits 5, EngineEmits 6])) = ErrorMode"
  "eventBuffer (replay (run (initial_world False plain_options buffering_session)
     [EngineEmits 5, EngineEmits 6])) = [5, 6]"
  "timers (run (step (run (initial_world False plain_options buffering_session)
        [EngineEmits 5, EngineEmits 6]) (GlobalEvent exception_event))
      [FlushRequested True, EngineEmits 7]) = [0]"
  "flushInProgress (replay (run (step (run (initial_world False plain_options buffering_session)
        [EngineEmits 5, EngineEmits 6]) (GlobalEvent exception_event))
      [FlushRequested True, EngineEmits 7]))"
  "awaitRequestedFlush (getOptions (replay (run (step (run (initial_world False plain_options buffering_session)
        [EngineEmits 5, EngineEmits 6]) (GlobalEvent exception_event))
      [FlushRequested True, EngineEmits 7])))"
  "history (run (step (run (step (run (initial_world False plain_options buffering_session)
        [EngineEmits 5, EngineEmits 6]) (GlobalEvent exception_event))
      [FlushRequested True, EngineEmits 7]) TimerFires)
      [EngineEmits 8, FlushSettles True, FlushSettles True, EngineEmits 9, FlushRequested True]) =
     [Ingested 5, Ingested 6, Scheduled 0, SegmentTaken 0 [5, 6], Ingested 7, FlushCalled 0,
      Ingested 8, SegmentSettled 0 True, SegmentTaken 1 [7, 8], SegmentSettled 1 True,
      FlushCompleted 0, EngineStopped 0 True, ModeSwitched 0, EngineStarted 0, Ingested 9,
      SegmentTaken 2 [9]]"
  "eventBuffer (replay (run (step (run (step (run (initial_world False plain_options buffering_session)
        [EngineEmits 5, EngineEmits 6]) (GlobalEvent exception_event))
      [FlushRequested True, EngineEmits 7]) TimerFires)
      [EngineEmits 8, FlushSettles True, FlushSettles True, EngineEmits 9, FlushRequested True])) = []"
  by (simp_all add: loop_defs exception_event_def triggers_transition_def transaction_trace_id_def
      listener_ctx_def truthy_def)

theorem records_before_trigger_only_in_segments_before_restart_witness:
  "recordingMode (replay (run (initial_world False plain_options buffering_session)
     [EngineEmits 5, EngineEmits 6])) = ErrorMode \<and>
   timers (run (step (run (initial_world False plain_options buffering_session)
        [EngineEmits 5, EngineEmits 6]) (GlobalEvent exception_event))
      [FlushRequested True, EngineEmits 7]) = [0] \<and>
   flushInProgress (replay (run (step (run (initial_world False plain_options buffering_session)
        [EngineEmits 5, EngineEmits 6]) (GlobalEvent exception_event))
      [FlushRequested True, EngineEmits 7])) \<and>
   awaitRequestedFlush (getOptions (replay (run (step (run (initial_world False plain_options buffering_session)
        [EngineEmits 5, EngineEmits 6]) (GlobalEvent exception_event))
      [FlushRequested True, EngineEmits 7]))) \<and>
   history (run (step (run (step (run (initial_world False plain_options buffering_session)
        [EngineEmits 5, EngineEmits 6]) (GlobalEvent exception_event))
      [FlushRequested True, EngineEmits 7]) TimerFires)
      [EngineEmits 8, FlushSettles True, FlushSettles True, EngineEmits 9, FlushRequested True]) =
     [Ingested 5, Ingested 6, Scheduled 0, SegmentTaken 0 [5, 6], Ingested 7, FlushCalled 0,
      Ingested 8, SegmentSettled 0 True, SegmentTaken 1 [7, 8], SegmentSettled 1 True,
      FlushCompleted 0, EngineStopped 0 True, ModeSwitched 0, EngineStarted 0, Ingested 9,
      SegmentTaken 2 [9]] \<and>
   (\<exists>pre post.
      history (run (step (run (step (run (initial_world False plain_options buffering_session)
        [EngineEmits 5, EngineEmits 6]) (GlobalEvent exception_event))
      [FlushRequested True, EngineEmits 7]) TimerFires)
      [EngineEmits 8, FlushSettles True, FlushSettles True, EngineEmits 9, FlushRequested True]) =
        pre @ EngineStarted 0 # post \<and>
      EngineStarted 0 \<notin> set pre \<and> EngineStarted 0 \<notin> set post \<and>
      prefix [5, 6] (flushed pre) \<and>
      flushed pre @ flushed post @ [] = [5, 6, 7, 8, 9])"
proof -
  let ?w1 = "run (initial_world False plain_options buffering_session) [EngineEmits 5, EngineEmits 6]"
  let ?w2 = "run (step ?w1 (GlobalEvent exception_event)) [FlushRequested True, EngineEmits 7]"
  let ?as3 = "[EngineEmits 8, FlushSettles True, FlushSettles True, EngineEmits 9,
       FlushRequested True]"
  let ?w3 = "run (step ?w2 TimerFires) ?as3"
  have e: "exception exception_event \<noteq> None" "transaction_trace_id exception_event = None"
    by (simp_all add: exception_event_def transaction_trace_id_def)
  have t: "timers ?w2 = nextTask ?w1 # []"
    by (simp only: segregation_scenario)
  have a: "awaitRequestedFlush (getOptions (replay ?w2)) \<or> \<not> flushInProgress (replay ?w2)"
    by (simp only: segregation_scenario simp_thms)
  have s: "EngineStarted (nextTask ?w1) \<in> set (history ?w3)"
    by (simp only: segregation_scenario) simp
  have i: "ingested (history ?w1) = [5, 6]" "ingested (history ?w3) = [5, 6, 7, 8, 9]"
    by (simp_all only: segregation_scenario) simp_all
  from records_before_trigger_only_in_segments_before_restart
    [OF refl refl refl, where dbg = False and opts = plain_options and s = buffering_session
      and ?as1.0 = "[EngineEmits 5, EngineEmits 6]" and ev = exception_event
      and ?as2.0 = "[FlushRequested True, EngineEmits 7]" and ?as3.0 = ?as3 and ks = "[]"]
    segregation_scenario(3) e t a s
  have "\<exists>pre post. history ?w3 = pre @ EngineStarted (nextTask ?w1) # post \<and>
       EngineStarted (nextTask ?w1) \<notin> set pre \<and> EngineStarted (nextTask ?w1) \<notin> set post \<and>
       prefix (ingested (history ?w1)) (flushed pre) \<and>
       flushed pre @ flushed post @ eventBuffer (replay ?w3) = ingested (history ?w3)"
    by blast
  then have "\<exists>pre post. history ?w3 = pre @ EngineStarted 0 # post \<and>
       EngineStarted 0 \<notin> set pre \<and> EngineStarted 0 \<notin> set post \<and>
       prefix [5, 6] (flushed pre) \<and>
       flushed pre @ flushed post @ [] = [5, 6, 7, 8, 9]"
    by (simp only: segregation_scenario(2,9) i simp_thms)
  with segregation_scenario(3,5,6,7,8) show ?thesis by blast
qed

text \<open>
  C3 as stated fails: in a container that fulfils the promise of \<^verbatim>\<open>flushImmediate\<close> at
  the settlement of the flush in progress, record 9, ingested before the event with the
  exception arrives, is still in the buffer when the engine is restarted, and it is in the
  segment that the requested flush takes after the restart; only record 8 was taken before.
\<close>

theorem record_before_trigger_in_segment_after_restart:
  "ingested (history (run (initial_world False early_promise_options buffering_session)
      [EngineEmits 8, FlushRequested True, EngineEmits 9])) = [8, 9] \<and>
   recordingMode (replay (run (initial_world False early_promise_options buffering_session)
      [EngineEmits 8, FlushRequested True, EngineEmits 9])) = ErrorMode \<and>
   history (run (step (run (initial_world False early_promise_options buffering_session)
        [EngineEmits 8, FlushRequested True, EngineEmits 9]) (GlobalEvent exception_event))
      [TimerFires, FlushSettles True]) =
     [Ingested 8, SegmentTaken 0 [8], Ingested 9, Scheduled 0, FlushCalled 0,
      SegmentSettled 0 True, FlushCompleted 0, EngineStopped 0 True, ModeSwitched 0,
      EngineStarted 0, SegmentTaken 1 [9]] \<and>
   flushed [Ingested 8, SegmentTaken 0 [8], Ingested 9, Scheduled 0, FlushCalled 0,
      SegmentSettled 0 True, FlushCompleted 0, EngineStopped 0 True, ModeSwitched 0] = [8] \<and>
   flushed [SegmentTaken 1 [9]] = [9]"
  by (simp add: loop_defs exception_event_def triggers_transition_def listener_ctx_def
      transaction_trace_id_def truthy_def early_promise_options_def)

section \<open>The recording mode\<close>

lemma mode_flush [simp]: "recordingMode (replay (flush b w)) = recordingMode (replay w)"
  by (simp add: flush_def runFlush_def)

lemma mode_transition_begin [simp]:
  "recordingMode (replay (transition_begin k w)) = recordingMode (replay w)"
  by (simp add: transition_begin_fields)

lemma mode_ingest [simp]: "recordingMode (replay (ingest r w)) = recordingMode (replay w)"
  by (simp add: ingest_def Let_def)

lemma mode_debounceElapsed [simp]:
  "recordingMode (replay (debounceElapsed w)) = recordingMode (replay w)"
  by (simp add: debounceElapsed_def)

lemma mode_settleFlush:
  "recordingMode (replay (settleFlush ok w)) = SessionMode \<or>
   recordingMode (replay (settleFlush ok w)) = recordingMode (replay w)"
proof (cases "serializing w")
  case Nil
  then show ?thesis by (simp add: settleFlush_idle)
next
  case (Cons p rest)
  obtain n seg where "p = (n, seg)" by (cases p)
  with Cons show ?thesis by (simp add: settleFlush_fields)
qed

lemma mode_step:
  "recordingMode (replay w) = SessionMode \<Longrightarrow> recordingMode (replay (step w a)) = SessionMode"
proof (cases a)
  case (FlushSettles ok)
  assume "recordingMode (replay w) = SessionMode"
  then show ?thesis using mode_settleFlush [of ok w] by (auto simp add: FlushSettles)
qed (simp_all split: list.splits)

lemma mode_run:
  "recordingMode (replay w) = SessionMode \<Longrightarrow> recordingMode (replay (run w as)) = SessionMode"
  unfolding run_def by (induction as arbitrary: w) (simp_all add: mode_step)

subsection \<open>Only a run of the callback switches the mode\<close>

lemma resume_entries_switched:
  "(\<exists>k. ModeSwitched k \<in> set (resume_entries a ks)) = (a \<and> ks \<noteq> [])"
  by (induction ks) auto

lemma switched_append:
  "(\<exists>k. ModeSwitched k \<in> set (h @ es)) =
   ((\<exists>k. ModeSwitched k \<in> set h) \<or> (\<exists>k. ModeSwitched k \<in> set es))"
  by auto

lemma mode_explained_settleFlush:
  assumes "mode_explained b w"
  shows "mode_explained b (settleFlush ok w)"
proof (cases "serializing w")
  case Nil
  with assms show ?thesis by (simp add: settleFlush_idle)
next
  case (Cons p rest)
  obtain n seg where "p = (n, seg)" by (cases p)
  with Cons have s: "serializing w = (n, seg) # rest" by simp
  have "(\<exists>k. ModeSwitched k \<in> set (history (settleFlush ok w))) =
      ((\<exists>k. ModeSwitched k \<in> set (history w)) \<or> (settled_engine ok w \<and> awaitingFlush w \<noteq> []))"
    unfolding settleFlush_fields(17) [OF s] switched_append resume_entries_switched by simp
  with assms show ?thesis
    by (auto simp add: mode_explained_def settleFlush_fields(1) [OF s])
qed

lemma mode_explained_step: "mode_explained b w \<Longrightarrow> mode_explained b (step w a)"
proof (cases a)
  case (GlobalEvent ev)
  assume "mode_explained b w"
  then show ?thesis by (simp add: GlobalEvent mode_explained_def)
next
  case TimerFires
  assume "mode_explained b w"
  then show ?thesis
    by (cases "timers w") (simp_all add: TimerFires mode_explained_def transition_begin_fields)
next
  case (FlushSettles ok)
  assume "mode_explained b w"
  then show ?thesis by (simp add: FlushSettles mode_explained_settleFlush)
next
  case (EngineEmits r)
  assume "mode_explained b w"
  then show ?thesis by (simp add: EngineEmits mode_explained_def ingest_fields)
next
  case DebounceElapses
  assume "mode_explained b w"
  then show ?thesis
    by (simp add: DebounceElapses mode_explained_def debounceElapsed_eq flush_fields)
next
  case (FlushRequested f)
  assume "mode_explained b w"
  then show ?thesis by (simp add: FlushRequested mode_explained_def flush_fields)
qed

lemma mode_explained_run: "mode_explained b w \<Longrightarrow> mode_explained b (run w as)"
  unfolding run_def by (induction as arbitrary: w) (simp_all add: mode_explained_step)

lemma mode_explained_initial: "mode_explained (sampled s) (initial_world dbg opts s)"
  by (simp add: mode_explained_def initial_world_def initial_container_def)

lemma in_task_entries:
  "entry_task e = Some k \<Longrightarrow> (e \<in> set (task_entries k h)) = (e \<in> set h)"
  by (simp add: task_entries_def)

lemma switched_then_started:
  assumes "task_ok k w" "ModeSwitched k \<in> set (history w)"
  shows "EngineStarted k \<in> set (history w)"
proof -
  from assms(2) have "ModeSwitched k \<in> set (task_entries k (history w))"
    by (simp add: in_task_entries)
  with assms(1) have "task_entries k (history w) = transition_sequence k True"
    by (auto simp add: task_ok_def transition_sequence_def split: if_splits)
  then have "EngineStarted k \<in> set (task_entries k (history w))"
    by (simp add: transition_sequence_def)
  then show ?thesis by (simp add: in_task_entries)
qed

lemma stopped_then_switched:
  assumes "task_ok k w" "EngineStopped k True \<in> set (history w)"
  shows "ModeSwitched k \<in> set (history w)"
proof -
  from assms(2) have "EngineStopped k True \<in> set (task_entries k (history w))"
    by (simp add: in_task_entries)
  with assms(1) have "task_entries k (history w) = transition_sequence k True"
    by (auto simp add: task_ok_def transition_sequence_def split: if_splits)
  then have "ModeSwitched k \<in> set (task_entries k (history w))"
    by (simp add: transition_sequence_def)
  then show ?thesis by (simp add: in_task_entries)
qed

subsection \<open>A callback whose timer has fired switches the mode\<close>

lemma resumed_switches:
  assumes "serializing w \<noteq> []" "awaitingFlush w \<noteq> []" "engineActive (replay w)"
  shows "recordingMode (replay (settleFlush True w)) = SessionMode"
proof -
  from assms(1) obtain n seg rest where "serializing w = (n, seg) # rest"
    by (cases "serializing w") auto
  from settleFlush_fields(1) [OF this, of True] assms(2,3) show ?thesis
    by (simp add: settled_engine_def)
qed

lemma queued_switches:
  assumes "serializing w \<noteq> []" "flushQueued (replay w)" "awaitingQueued w \<noteq> []"
    "engineActive (replay w)"
  shows "recordingMode (replay (settleFlush True (settleFlush True w))) = SessionMode"
proof -
  from assms(1) obtain n seg rest where s: "serializing w = (n, seg) # rest"
    by (cases "serializing w") auto
  note f = settleFlush_fields [OF s, of True]
  have "serializing (settleFlush True w) \<noteq> []" "awaitingFlush (settleFlush True w) \<noteq> []"
    "engineActive (replay (settleFlush True w))"
    using assms(2-4) by (simp_all add: f settled_engine_def)
  then show ?thesis by (rule resumed_switches)
qed

lemma transition_completes:
  assumes "coordinated w" "timers w = k # ks" "engineActive (replay w)"
  shows "recordingMode (replay (run w [TimerFires, FlushSettles True, FlushSettles True])) =
     SessionMode"
proof -
  let ?w1 = "transition_begin k (w\<lparr>timers := ks\<rparr>)"
  have r: "run w [TimerFires, FlushSettles True, FlushSettles True] =
      settleFlush True (settleFlush True ?w1)"
    by (simp add: run_def assms(2))
  have e: "engineActive (replay ?w1)" using assms(3) by (simp add: transition_begin_fields)
  show ?thesis
  proof (cases "awaitsNextFlush w")
    case True
    then have busy: "flushInProgress (replay w)" by (simp add: awaitsNextFlush_def)
    with assms(1) have "serializing w \<noteq> []" by (auto simp add: coordinated_def)
    with True busy have "serializing ?w1 \<noteq> []" "flushQueued (replay ?w1)" "awaitingQueued ?w1 \<noteq> []"
      by (simp_all add: transition_begin_fields awaitsNextFlush_def)
    then show ?thesis unfolding r using e by (rule queued_switches)
  next
    case False
    have "serializing ?w1 \<noteq> []"
      using assms(1) by (auto simp add: transition_begin_fields coordinated_def)
    moreover have "\<not> awaitsNextFlush (w\<lparr>timers := ks\<rparr>)"
      using False by (simp add: awaitsNextFlush_def)
    then have "awaitingFlush ?w1 \<noteq> []"
      by (simp add: transition_begin_fields)
    ultimately have "recordingMode (replay (settleFlush True ?w1)) = SessionMode"
      using e by (rule resumed_switches)
    then have "recordingMode (replay (step (settleFlush True ?w1) (FlushSettles True))) = SessionMode"
      by (rule mode_step)
    then show ?thesis unfolding r by simp
  qed
qed

text \<open>
  C4, as the code has it. The listener hands the transition to the timer queue exactly
  when an event that carries an exception, and is not a transaction with a trace id,
  arrives while the recording mode is \<open>error\<close>. Once the mode is \<open>session\<close>, no
  sequence of steps of the event loop returns it to \<open>error\<close>, so the mode changes at most
  once. In every state reached from the start of a recording: the mode is \<open>session\<close>
  exactly when the session was sampled at the start or a run of the callback has switched
  the mode, so until then it is still \<open>error\<close>; a run that has switched the mode was
  scheduled, called \<^verbatim>\<open>flushImmediate\<close>, was resumed after a flush had settled and was told
  by the stop that a recording was active, in this order; a run that was told so has
  switched the mode; and a callback at the head of the timer queue, with the engine
  running, has switched the mode (if it was not \<open>session\<close> already) when its timer has
  fired and the next two settlements have succeeded.
\<close>

theorem mode_transition_once:
  assumes "wr = run (initial_world dbg opts s) bs"
  shows "timers (snd (handleGlobalEventListener w ev)) =
     timers w @ (if recordingMode (replay w) = ErrorMode \<and> exception ev \<noteq> None \<and>
                    transaction_trace_id ev = None
                 then [nextTask w] else []) \<and>
   (recordingMode (replay w) = SessionMode \<longrightarrow> recordingMode (replay (run w as)) = SessionMode) \<and>
   ((recordingMode (replay wr) = SessionMode) =
      (sampled s \<or> (\<exists>j. ModeSwitched j \<in> set (history wr)))) \<and>
   (ModeSwitched k \<in> set (history wr) \<longrightarrow>
      (\<exists>n ok.
         subseq [Scheduled k, FlushCalled k, SegmentSettled n ok, FlushCompleted k,
                 EngineStopped k True, ModeSwitched k]
           (history wr))) \<and>
   (EngineStopped k True \<in> set (history wr) \<longrightarrow> ModeSwitched k \<in> set (history wr)) \<and>
   (timers wr = k # ks \<and> engineActive (replay wr) \<longrightarrow>
      recordingMode (replay (run wr [TimerFires, FlushSettles True, FlushSettles True])) =
        SessionMode)"
proof -
  have t: "triggers_transition w ev =
      (recordingMode (replay w) = ErrorMode \<and> exception ev \<noteq> None \<and> transaction_trace_id ev = None)"
    by (auto simp add: triggers_transition_def)
  have c: "coordinated wr"
    unfolding assms by (rule coordinated_run) (rule coordinated_initial)
  have "tasks_ok wr"
    unfolding assms by (rule tasks_ok_run) (rule tasks_ok_initial)
  then have tk: "task_ok k wr" by (simp add: tasks_ok_def)
  have "mode_explained (sampled s) wr"
    unfolding assms by (rule mode_explained_run) (rule mode_explained_initial)
  then have a: "(recordingMode (replay wr) = SessionMode) =
      (sampled s \<or> (\<exists>j. ModeSwitched j \<in> set (history wr)))"
    by (simp add: mode_explained_def)
  have "settled_before_restart wr"
    unfolding assms by (rule settled_before_restart_run) (rule settled_before_restart_initial)
  then have p: "promise_order_ok k wr" by (simp add: settled_before_restart_def)
  have b: "\<exists>n ok.
         subseq [Scheduled k, FlushCalled k, SegmentSettled n ok, FlushCompleted k,
                 EngineStopped k True, ModeSwitched k]
           (history wr)"
    if "ModeSwitched k \<in> set (history wr)"
  proof -
    from tk that have "EngineStarted k \<in> set (history wr)" by (rule switched_then_started)
    with p obtain n ok where
      "subseq [Scheduled k, FlushCalled k, SegmentSettled n ok,
               FlushCompleted k, EngineStopped k True, ModeSwitched k, EngineStarted k]
         (history wr)"
      by (auto simp add: promise_order_ok_def)
    moreover have "subseq [Scheduled k, FlushCalled k, SegmentSettled n ok, FlushCompleted k,
                 EngineStopped k True, ModeSwitched k]
        [Scheduled k, FlushCalled k, SegmentSettled n ok,
               FlushCompleted k, EngineStopped k True, ModeSwitched k, EngineStarted k]"
      by simp
    ultimately have "subseq [Scheduled k, FlushCalled k, SegmentSettled n ok, FlushCompleted k,
                 EngineStopped k True, ModeSwitched k] (history wr)"
      using subseq_order.order_trans by blast
    then show ?thesis by blast
  qed
  have d: "ModeSwitched k \<in> set (history wr)" if "EngineStopped k True \<in> set (history wr)"
    using tk that by (rule stopped_then_switched)
  have e: "recordingMode (replay (run wr [TimerFires, FlushSettles True, FlushSettles True])) =
        SessionMode"
    if "timers wr = k # ks" "engineActive (replay wr)"
    using c that by (rule transition_completes)
  from a b d e mode_run [of w as] show ?thesis by (simp add: t)
qed

lemma mode_scenario:
  "history (run (initial_world False plain_options buffering_session)
      [GlobalEvent exception_event, TimerFires, EngineEmits 7, FlushSettles True]) =
     [Scheduled 0, FlushCalled 0, SegmentTaken 0 [], Ingested 7, SegmentSettled 0 True,
      FlushCompleted 0, EngineStopped 0 True, ModeSwitched 0, EngineStarted 0]"
  "recordingMode (replay (run (initial_world False plain_options buffering_session)
      [GlobalEvent exception_event, TimerFires, EngineEmits 7, FlushSettles True])) = SessionMode"
  "timers (run (initial_world False plain_options buffering_session)
      [GlobalEvent exception_event]) = [0]"
  "engineActive (replay (run (initial_world False plain_options buffering_session)
      [GlobalEvent exception_event]))"
  "recordingMode (replay (run (initial_world False plain_options buffering_session)
      [GlobalEvent exception_event])) = ErrorMode"
  "history (run (initial_world False plain_options buffering_session)
      [GlobalEvent exception_event]) = [Scheduled 0]"
  by (simp_all add: loop_defs exception_event_def triggers_transition_def transaction_trace_id_def
      listener_ctx_def truthy_def)

theorem mode_transition_once_witness:
  "timers (snd (handleGlobalEventListener (initial_world False plain_options buffering_session)
       exception_event)) = [0] \<and>
   recordingMode (replay (initial_world False plain_options sampled_session)) = SessionMode \<and>
   recordingMode (replay (run (initial_world False plain_options sampled_session)
       [GlobalEvent exception_event, TimerFires, EngineEmits 7, FlushSettles False])) = SessionMode \<and>
   history (run (initial_world False plain_options buffering_session)
      [GlobalEvent exception_event, TimerFires, EngineEmits 7, FlushSettles True]) =
     [Scheduled 0, FlushCalled 0, SegmentTaken 0 [], Ingested 7, SegmentSettled 0 True,
      FlushCompleted 0, EngineStopped 0 True, ModeSwitched 0, EngineStarted 0] \<and>
   recordingMode (replay (run (initial_world False plain_options buffering_session)
      [GlobalEvent exception_event, TimerFires, EngineEmits 7, FlushSettles True])) = SessionMode \<and>
   (\<exists>n ok.
      subseq [Scheduled 0, FlushCalled 0, SegmentSettled n ok, FlushCompleted 0,
              EngineStopped 0 True, ModeSwitched 0]
        (history (run (initial_world False plain_options buffering_session)
          [GlobalEvent exception_event, TimerFires, EngineEmits 7, FlushSettles True]))) \<and>
   timers (run (initial_world False plain_options buffering_session)
      [GlobalEvent exception_event]) = [0] \<and>
   engineActive (replay (run (initial_world False plain_options buffering_session)
      [GlobalEvent exception_event])) \<and>
   recordingMode (replay (run (initial_world False plain_options buffering_session)
      [GlobalEvent exception_event])) = ErrorMode \<and>
   recordingMode (replay (run (run (initial_world False plain_options buffering_session)
      [GlobalEvent exception_event]) [TimerFires, FlushSettles True, FlushSettles True])) =
     SessionMode"
proof -
  let ?w0 = "initial_world False plain_options buffering_session"
  let ?as = "[GlobalEvent exception_event, TimerFires, EngineEmits 7, FlushSettles True]"
  have e: "exception exception_event \<noteq> None" "transaction_trace_id exception_event = None"
    by (simp_all add: exception_event_def transaction_trace_id_def)
  have m0: "recordingMode (replay ?w0) = ErrorMode" "nextTask ?w0 = 0" "timers ?w0 = []"
    by (simp_all add: initial_world_def initial_container_def buffering_session_def)
  have ms: "recordingMode (replay (initial_world False plain_options sampled_session)) = SessionMode"
    by (simp add: initial_world_def initial_container_def sampled_session_def)
  have sw: "ModeSwitched 0 \<in> set (history (run ?w0 ?as))"
    by (simp only: mode_scenario) simp
  note a = mode_transition_once [OF refl, where dbg = False and opts = plain_options
      and s = buffering_session and bs = ?as and w = ?w0 and ev = exception_event
      and as = "[]" and k = 0 and ks = "[]"]
  note b = mode_transition_once [OF refl, where dbg = False and opts = plain_options
      and s = buffering_session and bs = "[GlobalEvent exception_event]"
      and w = "initial_world False plain_options sampled_session" and ev = exception_event
      and as = "[GlobalEvent exception_event, TimerFires, EngineEmits 7, FlushSettles False]"
      and k = 0 and ks = "[]"]
  from a e m0 have 1: "timers (snd (handleGlobalEventListener ?w0 exception_event)) = [0]"
    by simp
  from b ms have 2: "recordingMode (replay (run (initial_world False plain_options sampled_session)
       [GlobalEvent exception_event, TimerFires, EngineEmits 7, FlushSettles False])) = SessionMode"
    by blast
  from a sw have 3: "\<exists>n ok.
      subseq [Scheduled 0, FlushCalled 0, SegmentSettled n ok, FlushCompleted 0,
              EngineStopped 0 True, ModeSwitched 0] (history (run ?w0 ?as))"
    by blast
  from b mode_scenario(3,4)
  have 4: "recordingMode (replay (run (run ?w0 [GlobalEvent exception_event])
      [TimerFires, FlushSettles True, FlushSettles True])) = SessionMode"
    by blast
  from 1 2 3 4 ms mode_scenario show ?thesis by blast
qed

text \<open>
  C4 as stated fails, in three ways. An error event without an exception (no type, a
  message only) that arrives while the mode is \<open>error\<close> schedules nothing, and the mode
  is still \<open>error\<close> after the timer step and the settlement step. An event with an
  exception that arrives in mode \<open>error\<close> after the recording was stopped (here by a
  failed flush) runs the callback to its end, and the mode is still \<open>error\<close>. And two
  events with an exception that arrive in mode \<open>error\<close> schedule two runs of the
  callback, each of which stops the engine, sets the mode and restarts the engine.
\<close>

theorem mode_not_switched_or_switched_twice:
  "event_type message_event = None \<and> exception message_event = None \<and>
   recordingMode (replay (initial_world False plain_options buffering_session)) = ErrorMode \<and>
   timers (snd (handleGlobalEventListener (initial_world False plain_options buffering_session)
       message_event)) = [] \<and>
   recordingMode (replay (run (initial_world False plain_options buffering_session)
       [GlobalEvent message_event, TimerFires, FlushSettles True])) = ErrorMode \<and>
   history (run (initial_world False fragile_options buffering_session)
      [FlushRequested True, FlushSettles False, GlobalEvent exception_event, TimerFires,
       FlushSettles True]) =
     [SegmentTaken 0 [], SegmentSettled 0 False, Scheduled 0, FlushCalled 0,
      SegmentTaken 1 [], SegmentSettled 1 True, FlushCompleted 0, EngineStopped 0 False] \<and>
   recordingMode (replay (run (initial_world False fragile_options buffering_session)
      [FlushRequested True, FlushSettles False, GlobalEvent exception_event, TimerFires,
       FlushSettles True])) = ErrorMode \<and>
   history (run (initial_world False plain_options buffering_session)
      [GlobalEvent exception_event, GlobalEvent exception_event, TimerFires, TimerFires,
       FlushSettles True, EngineEmits 7, FlushSettles True]) =
     [Scheduled 0, Scheduled 1, FlushCalled 0, SegmentTaken 0 [], FlushCalled 1,
      SegmentSettled 0 True, FlushCompleted 0, EngineStopped 0 True, ModeSwitched 0,
      EngineStarted 0, SegmentTaken 1 [], Ingested 7, SegmentSettled 1 True, FlushCompleted 1,
      EngineStopped 1 True, ModeSwitched 1, EngineStarted 1]"
  by (simp add: loop_defs message_event_def exception_event_def triggers_transition_def
      listener_ctx_def transaction_trace_id_def truthy_def fragile_options_def)

section \<open>Session lifecycle\<close>

lemma getOrCreateSession_cases:
  "(\<exists>d. getOrCreateSession cfg env st =
          Inr (createSession cfg env, fst (saveSession st (createSession cfg env)), d)) \<or>
   (\<exists>s. store_get st REPLAY_SESSION_KEY = Inr (Some s) \<and> \<not> isSessionExpired cfg (now env) s \<and>
        getOrCreateSession cfg env st = Inr (s, st, []))"
  by (cases "store_get st REPLAY_SESSION_KEY")
     (auto simp add: getOrCreateSession_def fetchSession_def Let_def
        split: prod.splits option.splits)

lemma getOrCreateSession_set_fails:
  assumes "store_set st REPLAY_SESSION_KEY (createSession cfg env) = Inl e"
    and "\<forall>s. store_get st REPLAY_SESSION_KEY = Inr (Some s) \<longrightarrow> isSessionExpired cfg (now env) s"
  shows "\<exists>d. getOrCreateSession cfg env st = Inr (createSession cfg env, st, d) \<and> d \<noteq> []"
proof (cases "store_get st REPLAY_SESSION_KEY")
  case (Inl x)
  with assms(1) show ?thesis
    by (simp add: getOrCreateSession_def fetchSession_def saveSession_def Let_def)
next
  case (Inr v)
  show ?thesis
  proof (cases v)
    case None
    with Inr assms(1) show ?thesis
      by (simp add: getOrCreateSession_def fetchSession_def saveSession_def Let_def)
  next
    case (Some s)
    with Inr assms(2) have "isSessionExpired cfg (now env) s" by simp
    with Some Inr assms(1) show ?thesis
      by (simp add: getOrCreateSession_def fetchSession_def saveSession_def Let_def)
  qed
qed

text \<open>
  C7, on the lifecycle of section 4.1: \<^verbatim>\<open>getOrCreateSession\<close> always returns a session,
  a new one or the persisted one that has not expired, and never an error. When the
  write to the store fails and a session has to be created, the new session is returned
  all the same, the store is as it was and a diagnostic is logged. \<^verbatim>\<open>deleteSession\<close>
  never returns an error; on a store that works the key is absent afterwards, and when
  nothing is persisted the store is unchanged.
\<close>

theorem session_store_failures_are_not_raised:
  "(\<exists>s st' d. getOrCreateSession cfg env st = Inr (s, st', d) \<and>
      (s = createSession cfg env \<or>
       store_get st REPLAY_SESSION_KEY = Inr (Some s) \<and> \<not> isSessionExpired cfg (now env) s)) \<and>
   (store_set st REPLAY_SESSION_KEY (createSession cfg env) = Inl e \<and>
    (\<forall>s. store_get st REPLAY_SESSION_KEY = Inr (Some s) \<longrightarrow> isSessionExpired cfg (now env) s) \<longrightarrow>
      (\<exists>d. getOrCreateSession cfg env st = Inr (createSession cfg env, st, d) \<and> d \<noteq> [])) \<and>
   (\<exists>st'. deleteSession st = Inr st') \<and>
   (\<not> disabled st \<longrightarrow>
      (\<exists>st'. deleteSession st = Inr st' \<and> store_get st' REPLAY_SESSION_KEY = Inr None)) \<and>
   (\<not> disabled st \<and> items st REPLAY_SESSION_KEY = None \<longrightarrow> deleteSession st = Inr st)"
proof -
  have a: "\<exists>s st' d. getOrCreateSession cfg env st = Inr (s, st', d) \<and>
      (s = createSession cfg env \<or>
       store_get st REPLAY_SESSION_KEY = Inr (Some s) \<and> \<not> isSessionExpired cfg (now env) s)"
    using getOrCreateSession_cases [of cfg env st] by blast
  have b: "\<exists>d. getOrCreateSession cfg env st = Inr (createSession cfg env, st, d) \<and> d \<noteq> []"
    if "store_set st REPLAY_SESSION_KEY (createSession cfg env) = Inl e"
      "\<forall>s. store_get st REPLAY_SESSION_KEY = Inr (Some s) \<longrightarrow> isSessionExpired cfg (now env) s"
    using that by (rule getOrCreateSession_set_fails)
  have c: "\<exists>st'. deleteSession st = Inr st'"
    by (cases "store_remove st REPLAY_SESSION_KEY") (simp_all add: deleteSession_def)
  have d: "\<exists>st'. deleteSession st = Inr st' \<and> store_get st' REPLAY_SESSION_KEY = Inr None"
    if "\<not> disabled st"
    using that by (simp add: deleteSession_def store_remove_def store_get_def)
  have f: "deleteSession st = Inr st" if "\<not> disabled st" "items st REPLAY_SESSION_KEY = None"
  proof -
    from that(2) have "(items st)(REPLAY_SESSION_KEY := None) = items st" by (rule fun_upd_idem)
    with that(1) show ?thesis by (simp add: deleteSession_def store_remove_def)
  qed
  from a b c d f show ?thesis by blast
qed

theorem session_store_failures_are_not_raised_witness:
  "store_set full_store REPLAY_SESSION_KEY
      (createSession \<lparr>inactivityTimeoutMs = 100, maxSessionAgeMs = 500, sessionSampleRate = 1 / 2\<rparr>
         \<lparr>now = 7000, uuid4 = ''0a1b2c3d'', randomDraw = 3 / 4\<rparr>) = Inl QuotaExceededError \<and>
   getOrCreateSession \<lparr>inactivityTimeoutMs = 100, maxSessionAgeMs = 500, sessionSampleRate = 1 / 2\<rparr>
      \<lparr>now = 7000, uuid4 = ''0a1b2c3d'', randomDraw = 3 / 4\<rparr> full_store =
     Inr (\<lparr>sid = ''0a1b2c3d'', started = 7000, lastActivity = 7000, sampled = False\<rparr>,
          full_store, [''failed to persist the replay session'']) \<and>
   \<not> disabled full_store \<and> items full_store REPLAY_SESSION_KEY = None \<and>
   deleteSession full_store = Inr full_store \<and>
   deleteSession disabled_store = Inr disabled_store"
  using session_store_failures_are_not_raised [of
      "\<lparr>inactivityTimeoutMs = 100, maxSessionAgeMs = 500, sessionSampleRate = 1 / 2\<rparr>"
      "\<lparr>now = 7000, uuid4 = ''0a1b2c3d'', randomDraw = 3 / 4\<rparr>" full_store QuotaExceededError]
  by (simp add: full_store_def disabled_store_def store_set_def store_get_def store_remove_def
      deleteSession_def getOrCreateSession_def fetchSession_def saveSession_def createSession_def
      Let_def)

section \<open>Debounce with a maximum wait\<close>

lemma debounced_first_flush:
  "debounced_flushes cfg (Some p) ts \<noteq> [] \<and>
   hd (debounced_flushes cfg (Some p) ts) \<le> fst p + maxWaitMs cfg"
proof (induction ts arbitrary: p)
  case Nil
  show ?case by (simp add: due_def)
next
  case (Cons t ts)
  show ?case using Cons.IH [of "(fst p, t)"] by (simp add: due_def)
qed

lemma debounced_single:
  assumes "within_debounce cfg (l # ts)" "\<forall>u \<in> set (l # ts). u < f + maxWaitMs cfg"
  shows "debounced_flushes cfg (Some (f, l)) ts = [due cfg (f, last (l # ts))]"
  using assms
proof (induction ts arbitrary: l)
  case Nil
  show ?case by simp
next
  case (Cons t ts)
  from Cons.prems have "t < l + debounceMs cfg" "t < f + maxWaitMs cfg" by simp_all
  then have "\<not> due cfg (f, l) \<le> t" by (simp add: due_def)
  moreover have "debounced_flushes cfg (Some (f, t)) ts = [due cfg (f, last (t # ts))]"
    using Cons.prems by (intro Cons.IH) simp_all
  ultimately show ?case by simp
qed

text \<open>
  C6, on the policy of section 4.3: the first flush after a request at \<open>t\<close> fires no
  later than \<open>t + maxWaitMs\<close>; and requests that each arrive less than \<open>debounceMs\<close>
  after the previous one, all of them less than \<open>maxWaitMs\<close> after the first, produce
  one flush, at the debounce interval after the last request or at the ceiling after the
  first, whichever comes first.
\<close>

theorem debounce_one_flush_within_max_wait:
  "debounced_flushes cfg None (t # ts) \<noteq> [] \<and>
   hd (debounced_flushes cfg None (t # ts)) \<le> t + maxWaitMs cfg \<and>
   (within_debounce cfg (t # ts) \<and> (\<forall>u \<in> set (t # ts). u < t + maxWaitMs cfg) \<longrightarrow>
      debounced_flushes cfg None (t # ts) =
        [min (last (t # ts) + debounceMs cfg) (t + maxWaitMs cfg)])"
  using debounced_first_flush [of cfg "(t, t)" ts] debounced_single [of cfg t ts t]
  by (simp add: due_def)

theorem debounce_one_flush_within_max_wait_witness:
  "within_debounce \<lparr>debounceMs = 10, maxWaitMs = 25\<rparr> [0, 9, 18] \<and>
   debounced_flushes \<lparr>debounceMs = 10, maxWaitMs = 25\<rparr> None [0, 9, 18] = [25] \<and>
   hd (debounced_flushes \<lparr>debounceMs = 10, maxWaitMs = 25\<rparr> None [0, 9, 18]) \<le> 0 + 25"
  using debounce_one_flush_within_max_wait [of "\<lparr>debounceMs = 10, maxWaitMs = 25\<rparr>" 0 "[9, 18]"]
  by (simp add: due_def)

text \<open>
  C6 as stated fails: with a debounce interval of 10 and a ceiling of 25, four requests
  at 0, 9, 18 and 27, each less than 10 after the previous one, produce two flushes, at
  25 and at 37.
\<close>

theorem debounce_chain_longer_than_max_wait_fires_twice:
  "within_debounce \<lparr>debounceMs = 10, maxWaitMs = 25\<rparr> [0, 9, 18, 27] \<and>
   debounced_flushes \<lparr>debounceMs = 10, maxWaitMs = 25\<rparr> None [0, 9, 18, 27] = [25, 37] \<and>
   length (debounced_flushes \<lparr>debounceMs = 10, maxWaitMs = 25\<rparr> None [0, 9, 18, 27]) = 2"
  by (simp add: due_def)

end
